theory Spec2Isabelle
  imports Complex_Main "HOL-Library.Word"
begin

unbundle bit_operations_syntax

section \<open>A Bloom filter over \<open>hash/maphash\<close>: the data model\<close>

text \<open>
  The package \<open>bloom\<close> exists in two variants in the source file. The first keeps the
  number of hash functions only as the length of \<open>seeds\<close> and sizes the filter with
  \<open>bloomParams\<close>; the second stores it in a field \<open>k\<close> as well and sizes the filter
  with \<open>optimalBitArraySize\<close> and \<open>optimalHashFunctions\<close>. Both are embedded here;
  the definitions of the second variant carry the suffix \<open>_v2\<close> where the names clash.

  Conventions of the embedding:
  \<^item> Go's \<open>uint\<close> and \<open>uint64\<close> are \<open>64 word\<close> (a 64-bit platform): \<open>+\<close> wraps,
    \<open>div\<close> and \<open>mod\<close> are the unsigned operations.
  \<^item> A panic is a value of type \<open>error\<close>, and a function that can panic returns
    \<open>error + 'a\<close> with \<open>Inl\<close> for the panic.
  \<^item> \<open>float64\<close> is idealised as \<open>real\<close>: \<open>math.Log\<close>, \<open>math.Exp\<close>,
    \<open>math.Pow\<close> with a whole exponent and \<open>math.Ceil\<close> are \<open>ln\<close>, \<open>exp\<close>,
    \<open>(^)\<close> and the ceiling. Rounding is not modelled. Where IEEE arithmetic and the
    total functions of HOL part (division by zero, logarithm of a non-positive number,
    conversion of a value that \<open>uint\<close> cannot hold) the model has a branch of its own.
  \<^item> The standard library's \<open>maphash\<close> is not part of the repository. A seed is its
    64-bit payload (zero is the uninitialised seed, which \<open>MakeSeed\<close> never returns),
    a \<open>maphash.Hash\<close> is its seed together with what was written since the last reset,
    and the hash function itself is a parameter \<open>H\<close> of the model. The seed a
    \<open>MakeSeed\<close> call inside the library would draw is the parameter \<open>r\<close>; the seeds
    drawn at construction are the parameter \<open>gen\<close>.
\<close>

type_synonym uint64 = "64 word"

type_synonym Seed = "64 word"

datatype error =
    DivideByZero           \<comment> \<open>runtime error: integer divide by zero\<close>
  | IndexOutOfRange        \<comment> \<open>runtime error: index out of range\<close>
  | UninitializedSeed      \<comment> \<open>maphash: use of uninitialized Seed\<close>
  | ConversionUndefined    \<comment> \<open>a float64 that \<open>uint\<close> cannot hold: the result is implementation-dependent\<close>

record 'a Hash =
  hseed :: Seed
  hbuf :: "'a list"

record 'a Filter =
  bits :: "uint64 list"
  m :: uint64
  seeds :: "Seed list"
  hasher :: "'a Hash"
  entries :: uint64

record 'a Filter_v2 = "'a Filter" +
  k :: uint64

type_synonym 'a hashfn = "Seed \<Rightarrow> 'a list \<Rightarrow> uint64"

subsection \<open>The hashing context of \<open>maphash\<close>\<close>

definition initSeed :: "Seed \<Rightarrow> 'a Hash \<Rightarrow> 'a Hash" where
  "initSeed r h = (if hseed h = 0 then h\<lparr>hseed := r\<rparr> else h)"

definition Reset :: "Seed \<Rightarrow> 'a Hash \<Rightarrow> 'a Hash" where
  "Reset r h = (initSeed r h)\<lparr>hbuf := []\<rparr>"

definition SetSeed :: "Seed \<Rightarrow> 'a Hash \<Rightarrow> error + 'a Hash" where
  "SetSeed seed h =
     (if seed = 0 then Inl UninitializedSeed else Inr \<lparr>hseed = seed, hbuf = []\<rparr>)"

definition WriteComparable :: "'a Hash \<Rightarrow> 'a \<Rightarrow> 'a Hash" where
  "WriteComparable h v = h\<lparr>hbuf := hbuf h @ [v]\<rparr>"

definition Sum64 :: "'a hashfn \<Rightarrow> Seed \<Rightarrow> 'a Hash \<Rightarrow> uint64 \<times> 'a Hash" where
  "Sum64 H r h = (let h' = initSeed r h in (H (hseed h') (hbuf h'), h'))"

subsection \<open>Hashing an item\<close>

definition hashItem ::
  "'a hashfn \<Rightarrow> Seed \<Rightarrow> ('a, 'z) Filter_scheme \<Rightarrow> 'a \<Rightarrow> Seed
     \<Rightarrow> error + (uint64 \<times> ('a, 'z) Filter_scheme)" where
  "hashItem H r bf item seed =
     (let h1 = Reset r (hasher bf) in
      case SetSeed seed h1 of
        Inl e \<Rightarrow> Inl e
      | Inr h2 \<Rightarrow>
          (let h3 = WriteComparable h2 item;
               (v, h4) = Sum64 H r h3
           in Inr (v, bf\<lparr>hasher := h4\<rparr>)))"

subsection \<open>Add and Contains, first variant\<close>

text \<open>The body of the loop of \<open>Add\<close>: one seed, one bit.\<close>

definition setBit ::
  "uint64 \<Rightarrow> ('a, 'z) Filter_scheme \<Rightarrow> error + ('a, 'z) Filter_scheme" where
  "setBit hash bf =
     (if m bf = 0 then Inl DivideByZero
      else
        let combinedHash = hash mod m bf;
            wordIndex = combinedHash div 64;
            bitOffset = combinedHash mod 64
        in if length (bits bf) \<le> unat wordIndex then Inl IndexOutOfRange
           else Inr (bf\<lparr>bits := (bits bf)[unat wordIndex :=
                       bits bf ! unat wordIndex OR push_bit (unat bitOffset) 1]\<rparr>))"

text \<open>The test in the loop of \<open>Contains\<close>: is the bit of this hash set?\<close>

definition testBit ::
  "uint64 \<Rightarrow> ('a, 'z) Filter_scheme \<Rightarrow> error + bool" where
  "testBit hash bf =
     (if m bf = 0 then Inl DivideByZero
      else
        let combinedHash = hash mod m bf;
            wordIndex = combinedHash div 64;
            bitOffset = combinedHash mod 64
        in if length (bits bf) \<le> unat wordIndex then Inl IndexOutOfRange
           else Inr (bits bf ! unat wordIndex AND push_bit (unat bitOffset) 1 \<noteq> 0))"

fun Add_loop ::
  "'a hashfn \<Rightarrow> Seed \<Rightarrow> 'a \<Rightarrow> Seed list \<Rightarrow> ('a, 'z) Filter_scheme
     \<Rightarrow> error + ('a, 'z) Filter_scheme" where
  "Add_loop H r item [] bf = Inr bf"
| "Add_loop H r item (seed # rest) bf =
     (case hashItem H r bf item seed of
        Inl e \<Rightarrow> Inl e
      | Inr (hash, bf1) \<Rightarrow>
          (case setBit hash bf1 of
             Inl e \<Rightarrow> Inl e
           | Inr bf2 \<Rightarrow> Add_loop H r item rest bf2))"

definition Add ::
  "'a hashfn \<Rightarrow> Seed \<Rightarrow> 'a \<Rightarrow> ('a, 'z) Filter_scheme \<Rightarrow> error + ('a, 'z) Filter_scheme" where
  "Add H r item bf =
     (let bf0 = bf\<lparr>entries := entries bf + 1\<rparr> in Add_loop H r item (seeds bf0) bf0)"

fun Contains_loop ::
  "'a hashfn \<Rightarrow> Seed \<Rightarrow> 'a \<Rightarrow> Seed list \<Rightarrow> ('a, 'z) Filter_scheme
     \<Rightarrow> error + (bool \<times> ('a, 'z) Filter_scheme)" where
  "Contains_loop H r item [] bf = Inr (True, bf)"
| "Contains_loop H r item (seed # rest) bf =
     (case hashItem H r bf item seed of
        Inl e \<Rightarrow> Inl e
      | Inr (hash, bf1) \<Rightarrow>
          (case testBit hash bf1 of
             Inl e \<Rightarrow> Inl e
           | Inr b \<Rightarrow> if \<not> b then Inr (False, bf1) else Contains_loop H r item rest bf1))"

definition Contains ::
  "'a hashfn \<Rightarrow> Seed \<Rightarrow> 'a \<Rightarrow> ('a, 'z) Filter_scheme
     \<Rightarrow> error + (bool \<times> ('a, 'z) Filter_scheme)" where
  "Contains H r item bf = Contains_loop H r item (seeds bf) bf"

subsection \<open>Add and Contains, second variant\<close>

text \<open>
  The second variant counts \<open>i\<close> from 0 up to the field \<open>k\<close> and indexes \<open>seeds\<close>
  with it; an index beyond the slice panics.
\<close>

function Add_loop_v2 ::
  "'a hashfn \<Rightarrow> Seed \<Rightarrow> 'a \<Rightarrow> uint64 \<Rightarrow> ('a, 'z) Filter_v2_scheme
     \<Rightarrow> error + ('a, 'z) Filter_v2_scheme" where
  "Add_loop_v2 H r item i bf =
     (if i < k bf then
        (if length (seeds bf) \<le> unat i then Inl IndexOutOfRange
         else
           case hashItem H r bf item (seeds bf ! unat i) of
             Inl e \<Rightarrow> Inl e
           | Inr (hash, bf1) \<Rightarrow>
               (case setBit hash bf1 of
                  Inl e \<Rightarrow> Inl e
                | Inr bf2 \<Rightarrow> Add_loop_v2 H r item (i + 1) bf2))
      else Inr bf)"
  by pat_completeness auto
termination
proof (relation "measure (\<lambda>(H, r, item, i, bf). 2 ^ 64 - unat i)")
  show "wf (measure (\<lambda>(H :: 'a hashfn, r :: Seed, item :: 'a, i :: uint64,
                        bf :: ('a, 'z) Filter_v2_scheme). 2 ^ 64 - unat i))"
    by simp
next
  fix i :: uint64 and bf :: "('a, 'z) Filter_v2_scheme"
    and H :: "'a hashfn" and r :: Seed and item :: 'a and bf2 :: "('a, 'z) Filter_v2_scheme"
  assume "i < k bf"
  then have "unat i < unat (k bf)"
    by (simp add: word_less_nat_alt)
  moreover have "unat (k bf) < 2 ^ 64"
    using unsigned_less [of "k bf"] by simp
  ultimately have "unat i + unat (1 :: uint64) < 2 ^ LENGTH(64)"
    by simp
  then have "unat (i + 1) = unat i + 1"
    using unat_add_lem [of i 1] by simp
  moreover have "unat i < 2 ^ 64"
    using unsigned_less [of i] by simp
  ultimately show "((H, r, item, i + 1, bf2), (H, r, item, i, bf))
      \<in> measure (\<lambda>(H, r, item, i, bf). 2 ^ 64 - unat i)"
    by simp
qed

definition Add_v2 ::
  "'a hashfn \<Rightarrow> Seed \<Rightarrow> 'a \<Rightarrow> ('a, 'z) Filter_v2_scheme
     \<Rightarrow> error + ('a, 'z) Filter_v2_scheme" where
  "Add_v2 H r item bf =
     (let bf0 = bf\<lparr>entries := entries bf + 1\<rparr> in Add_loop_v2 H r item 0 bf0)"

function Contains_loop_v2 ::
  "'a hashfn \<Rightarrow> Seed \<Rightarrow> 'a \<Rightarrow> uint64 \<Rightarrow> ('a, 'z) Filter_v2_scheme
     \<Rightarrow> error + (bool \<times> ('a, 'z) Filter_v2_scheme)" where
  "Contains_loop_v2 H r item i bf =
     (if i < k bf then
        (if length (seeds bf) \<le> unat i then Inl IndexOutOfRange
         else
           case hashItem H r bf item (seeds bf ! unat i) of
             Inl e \<Rightarrow> Inl e
           | Inr (hash, bf1) \<Rightarrow>
               (case testBit hash bf1 of
                  Inl e \<Rightarrow> Inl e
                | Inr b \<Rightarrow>
                    if \<not> b then Inr (False, bf1)
                    else Contains_loop_v2 H r item (i + 1) bf1))
      else Inr (True, bf))"
  by pat_completeness auto
termination
proof (relation "measure (\<lambda>(H, r, item, i, bf). 2 ^ 64 - unat i)")
  show "wf (measure (\<lambda>(H :: 'a hashfn, r :: Seed, item :: 'a, i :: uint64,
                        bf :: ('a, 'z) Filter_v2_scheme). 2 ^ 64 - unat i))"
    by simp
next
  fix i :: uint64 and bf :: "('a, 'z) Filter_v2_scheme"
    and H :: "'a hashfn" and r :: Seed and item :: 'a and bf1 :: "('a, 'z) Filter_v2_scheme"
  assume "i < k bf"
  then have "unat i < unat (k bf)"
    by (simp add: word_less_nat_alt)
  moreover have "unat (k bf) < 2 ^ 64"
    using unsigned_less [of "k bf"] by simp
  ultimately have "unat i + unat (1 :: uint64) < 2 ^ LENGTH(64)"
    by simp
  then have "unat (i + 1) = unat i + 1"
    using unat_add_lem [of i 1] by simp
  moreover have "unat i < 2 ^ 64"
    using unsigned_less [of i] by simp
  ultimately show "((H, r, item, i + 1, bf1), (H, r, item, i, bf))
      \<in> measure (\<lambda>(H, r, item, i, bf). 2 ^ 64 - unat i)"
    by simp
qed

definition Contains_v2 ::
  "'a hashfn \<Rightarrow> Seed \<Rightarrow> 'a \<Rightarrow> ('a, 'z) Filter_v2_scheme
     \<Rightarrow> error + (bool \<times> ('a, 'z) Filter_v2_scheme)" where
  "Contains_v2 H r item bf = Contains_loop_v2 H r item 0 bf"

subsection \<open>Sizing\<close>

text \<open>
  \<open>math.Ceil\<close>, and the conversion \<open>uint(x)\<close> of a \<open>float64\<close>: it truncates towards
  zero, and Go leaves the result implementation-dependent when \<open>uint\<close> cannot hold the
  truncated value; the model stops there with \<open>ConversionUndefined\<close>.
\<close>

definition Ceil :: "real \<Rightarrow> real" where
  "Ceil x = of_int \<lceil>x\<rceil>"

definition uint_of_float64 :: "real \<Rightarrow> error + uint64" where
  "uint_of_float64 x =
     (if - 1 < x \<and> x < 2 ^ 64 then Inr (word_of_int (if x < 0 then 0 else \<lfloor>x\<rfloor>))
      else Inl ConversionUndefined)"

text \<open>
  \<open>bloomParams\<close> of the first variant. With \<open>p \<le> 0\<close> the logarithm is NaN or
  \<open>-Inf\<close> and with \<open>n = 0\<close> the quotient \<open>m / n\<close> is NaN: in both cases a
  conversion to \<open>uint\<close> meets a value it cannot hold.
\<close>

definition bloomParams :: "uint64 \<Rightarrow> real \<Rightarrow> error + (uint64 \<times> uint64)" where
  "bloomParams expectedItems falsePositiveRate =
     (let n = real (unat expectedItems);
          p = falsePositiveRate
      in if p \<le> 0 \<or> n = 0 then Inl ConversionUndefined
         else
           let mf = - n * ln p / (ln 2) ^ 2 in
           case uint_of_float64 (Ceil mf) of
             Inl e \<Rightarrow> Inl e
           | Inr bitsNeeded \<Rightarrow>
               (let kf = mf / n * ln 2 in
                case uint_of_float64 (Ceil kf) of
                  Inl e \<Rightarrow> Inl e
                | Inr numHashFunctions \<Rightarrow> Inr (bitsNeeded, max numHashFunctions 1)))"

text \<open>The two sizing functions of the second variant.\<close>

definition optimalBitArraySize :: "uint64 \<Rightarrow> real \<Rightarrow> error + uint64" where
  "optimalBitArraySize n p =
     (if p \<le> 0 then Inl ConversionUndefined
      else uint_of_float64 (Ceil (- real (unat n) * ln p / (ln 2) ^ 2)))"

definition optimalHashFunctions :: "uint64 \<Rightarrow> uint64 \<Rightarrow> error + uint64" where
  "optimalHashFunctions n mbits =
     (if n = 0 then Inl ConversionUndefined
      else
        case uint_of_float64 (Ceil (real (unat mbits) / real (unat n) * ln 2)) of
          Inl e \<Rightarrow> Inl e
        | Inr kh \<Rightarrow> Inr (if kh < 1 then 1 else kh))"

subsection \<open>Construction\<close>


definition NewBloomFilter_v2 ::
  "(nat \<Rightarrow> Seed) \<Rightarrow> uint64 \<Rightarrow> real \<Rightarrow> error + 'a Filter_v2" where
  "NewBloomFilter_v2 gen expectedItems falsePositiveRate =
     (case optimalBitArraySize expectedItems falsePositiveRate of
        Inl e \<Rightarrow> Inl e
      | Inr mbits \<Rightarrow>
          (case optimalHashFunctions expectedItems mbits of
             Inl e \<Rightarrow> Inl e
           | Inr kh \<Rightarrow>
               Inr \<lparr>bits = replicate (unat ((mbits + 63) div 64)) 0,
                    m = mbits,
                    seeds = map gen [0..<unat kh],
                    hasher = \<lparr>hseed = 0, hbuf = []\<rparr>,
                    entries = 0,
                    k = kh\<rparr>))"

subsection \<open>The estimated false-positive rate\<close>

text \<open>
  With \<open>m = 0\<close> and \<open>entries > 0\<close> the IEEE quotient is \<open>-Inf\<close> (or NaN when there
  is no seed), \<open>math.Exp\<close> of it is 0 (or NaN), and \<open>math.Pow\<close> returns 1 either way;
  HOL's quotient by zero is 0, so the model gives this case a branch.
\<close>

definition EstimatedFalsePositiveRate :: "('a, 'z) Filter_scheme \<Rightarrow> real" where
  "EstimatedFalsePositiveRate bf =
     (if entries bf = 0 then 0
      else if m bf = 0 then 1
      else
        let kf = real (length (seeds bf));
            n = real (unat (entries bf));
            mf = real (unat (m bf));
            probBitIsZero = exp (- kf * n / mf);
            probBitIsOne = 1 - probBitIsZero
        in probBitIsOne ^ length (seeds bf))"

definition EstimatedFalsePositiveRate_v2 :: "('a, 'z) Filter_v2_scheme \<Rightarrow> real" where
  "EstimatedFalsePositiveRate_v2 bf =
     (if entries bf = 0 then 0
      else if m bf = 0 then 1
      else (1 - exp (- real (unat (k bf)) * real (unat (entries bf)) / real (unat (m bf))))
             ^ unat (k bf))"

subsection \<open>Sequences of calls, and the invariant of a filter\<close>

datatype 'a call = CallAdd 'a | CallContains 'a

fun run ::
  "'a hashfn \<Rightarrow> Seed \<Rightarrow> 'a call list \<Rightarrow> ('a, 'z) Filter_scheme
     \<Rightarrow> error + ('a, 'z) Filter_scheme" where
  "run H r [] bf = Inr bf"
| "run H r (CallAdd x # cs) bf =
     (case Add H r x bf of Inl e \<Rightarrow> Inl e | Inr bf' \<Rightarrow> run H r cs bf')"
| "run H r (CallContains x # cs) bf =
     (case Contains H r x bf of Inl e \<Rightarrow> Inl e | Inr (b, bf') \<Rightarrow> run H r cs bf')"

fun run_v2 ::
  "'a hashfn \<Rightarrow> Seed \<Rightarrow> 'a call list \<Rightarrow> ('a, 'z) Filter_v2_scheme
     \<Rightarrow> error + ('a, 'z) Filter_v2_scheme" where
  "run_v2 H r [] bf = Inr bf"
| "run_v2 H r (CallAdd x # cs) bf =
     (case Add_v2 H r x bf of Inl e \<Rightarrow> Inl e | Inr bf' \<Rightarrow> run_v2 H r cs bf')"
| "run_v2 H r (CallContains x # cs) bf =
     (case Contains_v2 H r x bf of Inl e \<Rightarrow> Inl e | Inr (b, bf') \<Rightarrow> run_v2 H r cs bf')"

text \<open>
  What construction establishes and every call keeps: the bit array is not empty, the
  words of \<open>bits\<close> cover its \<open>m\<close> bits, and no seed is the uninitialised one.
\<close>

definition Filter_inv :: "('a, 'z) Filter_scheme \<Rightarrow> bool" where
  "Filter_inv bf \<longleftrightarrow>
     m bf \<noteq> 0 \<and> unat (m bf) \<le> 64 * length (bits bf) \<and> 0 \<notin> set (seeds bf)"

text \<open>The bit at position \<open>pos\<close> of the packed array is set.\<close>

definition bit_at :: "('a, 'z) Filter_scheme \<Rightarrow> nat \<Rightarrow> bool" where
  "bit_at bf pos \<longleftrightarrow> pos div 64 < length (bits bf) \<and> bit (bits bf ! (pos div 64)) (pos mod 64)"

text \<open>The positions that the seeds of the filter give an item.\<close>

definition positions :: "'a hashfn \<Rightarrow> ('a, 'z) Filter_scheme \<Rightarrow> 'a \<Rightarrow> nat list" where
  "positions H bf item = map (\<lambda>seed. unat (H seed [item] mod m bf)) (seeds bf)"

text \<open>A hash function for the examples.\<close>

definition sample_hash :: "nat hashfn" where
  "sample_hash seed xs = seed * 31 + of_nat (sum_list xs)"


text \<open>A small filter for the examples: one word of 64 bits, two seeds, nothing added yet.\<close>

definition demo :: "nat Filter" where
  "demo = \<lparr>bits = [0], m = 64, seeds = [1, 2], hasher = \<lparr>hseed = 0, hbuf = []\<rparr>, entries = 0\<rparr>"

text \<open>The same filter in the second variant, with its field \<open>k\<close>.\<close>

definition demo_v2 :: "nat Filter_v2" where
  "demo_v2 = \<lparr>bits = [0], m = 64, seeds = [1, 2], hasher = \<lparr>hseed = 0, hbuf = []\<rparr>,
              entries = 0, k = 2\<rparr>"

section \<open>Hashing, setting and testing one bit\<close>


lemma hashItem_Inr:
  "seed \<noteq> 0 \<Longrightarrow>
   hashItem H r bf item seed = Inr (H seed [item], bf\<lparr>hasher := \<lparr>hseed = seed, hbuf = [item]\<rparr>\<rparr>)"
  by (simp add: hashItem_def Reset_def SetSeed_def WriteComparable_def Sum64_def initSeed_def)

lemma hashItem_Inl:
  "hashItem H r bf item 0 = Inl UninitializedSeed"
  by (simp add: hashItem_def SetSeed_def)

lemma wordIndex_in_range:
  fixes hash :: uint64
  assumes "m bf \<noteq> 0" and "unat (m bf) \<le> 64 * length (bits bf)"
  shows "unat ((hash mod m bf) div 64) < length (bits bf)"
proof -
  have "unat (hash mod m bf) < unat (m bf)"
    using assms(1) by (simp add: unat_mod unat_gt_0)
  then have "unat (hash mod m bf) < 64 * length (bits bf)"
    using assms(2) by simp
  then have "unat (hash mod m bf) div 64 < length (bits bf)"
    by (simp add: less_mult_imp_div_less mult.commute)
  then show ?thesis
    by (simp add: unat_div)
qed

lemma bit_set_word:
  fixes w :: uint64
  shows "bit (w OR 2 ^ n) j \<longleftrightarrow> bit w j \<or> (j = n \<and> n < 64)"
  by (auto simp add: bit_or_iff bit_exp_iff)

lemma test_bit_word:
  fixes w :: uint64
  assumes "n < 64"
  shows "w AND 2 ^ n \<noteq> 0 \<longleftrightarrow> bit w n"
proof
  assume "w AND 2 ^ n \<noteq> 0"
  then obtain j where "bit (w AND 2 ^ n) j"
    by (auto simp add: bit_eq_iff)
  then show "bit w n"
    by (auto simp add: bit_and_iff bit_exp_iff)
next
  assume "bit w n"
  then have "bit (w AND 2 ^ n) n"
    using assms by (simp add: bit_and_iff bit_exp_iff)
  then show "w AND 2 ^ n \<noteq> 0"
    by auto
qed

lemma setBit_Inr:
  assumes "m bf \<noteq> 0" and "unat (m bf) \<le> 64 * length (bits bf)"
  shows "setBit hash bf =
    Inr (bf\<lparr>bits := (bits bf)[unat (hash mod m bf) div 64 :=
           bits bf ! (unat (hash mod m bf) div 64) OR push_bit (unat (hash mod m bf) mod 64) 1]\<rparr>)"
  using assms wordIndex_in_range [OF assms, of hash]
  by (simp add: setBit_def Let_def unat_div unat_mod)

lemma testBit_Inr:
  assumes "m bf \<noteq> 0" and "unat (m bf) \<le> 64 * length (bits bf)"
  shows "testBit hash bf = Inr (bit_at bf (unat (hash mod m bf)))"
proof -
  have "unat (hash mod m bf) div 64 < length (bits bf)"
    using wordIndex_in_range [OF assms, of hash] by (simp add: unat_div)
  moreover have "unat (hash mod m bf) mod 64 < 64"
    by simp
  ultimately show ?thesis
    using assms(1)
    by (simp add: testBit_def Let_def unat_div unat_mod bit_at_def test_bit_word)
qed

lemma bit_at_update:
  assumes "pos div 64 < length (bits bf)"
  shows "bit_at (bf\<lparr>bits := (bits bf)[pos div 64 :=
            bits bf ! (pos div 64) OR push_bit (pos mod 64) 1]\<rparr>) q
         \<longleftrightarrow> bit_at bf q \<or> q = pos"
proof (cases "q div 64 = pos div 64")
  case True
  have "q = pos \<longleftrightarrow> q mod 64 = pos mod 64"
    using True by (metis div_mult_mod_eq)
  then show ?thesis
    using True assms by (auto simp add: bit_at_def bit_set_word)
next
  case False
  then have "q \<noteq> pos" by auto
  then show ?thesis
    using False by (simp add: bit_at_def)
qed

lemma setBit_ok:
  assumes "m bf \<noteq> 0" and "unat (m bf) \<le> 64 * length (bits bf)"
  shows "\<exists>bf'. setBit hash bf = Inr bf' \<and> bf' = bf\<lparr>bits := bits bf'\<rparr>
           \<and> length (bits bf') = length (bits bf)
           \<and> (\<forall>q. bit_at bf' q \<longleftrightarrow> bit_at bf q \<or> q = unat (hash mod m bf))"
proof -
  have "unat (hash mod m bf) div 64 < length (bits bf)"
    using wordIndex_in_range [OF assms, of hash] by (simp add: unat_div)
  then show ?thesis
    using bit_at_update [of "unat (hash mod m bf)" bf]
    by (simp add: setBit_Inr [OF assms])
qed

lemma Add_loop_ok:
  assumes "m bf \<noteq> 0" and "unat (m bf) \<le> 64 * length (bits bf)" and "0 \<notin> set ss"
  shows "\<exists>bf'. Add_loop H r item ss bf = Inr bf'
           \<and> bf' = bf\<lparr>bits := bits bf', hasher := hasher bf'\<rparr>
           \<and> length (bits bf') = length (bits bf)
           \<and> (\<forall>q. bit_at bf' q \<longleftrightarrow>
                  bit_at bf q \<or> q \<in> (\<lambda>seed. unat (H seed [item] mod m bf)) ` set ss)"
  using assms
proof (induction ss arbitrary: bf)
  case Nil
  then show ?case by simp
next
  case (Cons seed rest)
  let ?bf1 = "bf\<lparr>hasher := \<lparr>hseed = seed, hbuf = [item]\<rparr>\<rparr>"
  have seed: "seed \<noteq> 0" and rest: "0 \<notin> set rest"
    using Cons.prems(3) by auto
  have h: "hashItem H r bf item seed = Inr (H seed [item], ?bf1)"
    by (rule hashItem_Inr [OF seed])
  have m1: "m ?bf1 \<noteq> 0" and l1: "unat (m ?bf1) \<le> 64 * length (bits ?bf1)"
    using Cons.prems(1,2) by simp_all
  obtain bf2 where s: "setBit (H seed [item]) ?bf1 = Inr bf2"
    and f2: "bf2 = ?bf1\<lparr>bits := bits bf2\<rparr>"
    and len2: "length (bits bf2) = length (bits ?bf1)"
    and b2: "\<forall>q. bit_at bf2 q \<longleftrightarrow> bit_at ?bf1 q \<or> q = unat (H seed [item] mod m ?bf1)"
    using setBit_ok [OF m1 l1, of "H seed [item]"] by blast
  have m2: "m bf2 = m bf"
    by (subst f2) simp
  have "m bf2 \<noteq> 0" and "unat (m bf2) \<le> 64 * length (bits bf2)"
    using Cons.prems(1,2) m2 len2 by simp_all
  from Cons.IH [OF this rest]
  obtain bf' where a: "Add_loop H r item rest bf2 = Inr bf'"
    and f': "bf' = bf2\<lparr>bits := bits bf', hasher := hasher bf'\<rparr>"
    and len': "length (bits bf') = length (bits bf2)"
    and b': "\<forall>q. bit_at bf' q \<longleftrightarrow>
               bit_at bf2 q \<or> q \<in> (\<lambda>seed. unat (H seed [item] mod m bf2)) ` set rest"
    by blast
  have "Add_loop H r item (seed # rest) bf = Inr bf'"
    by (simp add: h s a)
  moreover have "bf' = bf\<lparr>bits := bits bf', hasher := hasher bf'\<rparr>"
    by (subst f', subst f2) simp
  moreover have "length (bits bf') = length (bits bf)"
    using len' len2 by simp
  moreover have "bit_at ?bf1 q \<longleftrightarrow> bit_at bf q" for q
    by (simp add: bit_at_def)
  then have "\<forall>q. bit_at bf' q \<longleftrightarrow>
      bit_at bf q \<or> q \<in> (\<lambda>seed. unat (H seed [item] mod m bf)) ` set (seed # rest)"
    using b' b2 m2 by auto
  ultimately show ?case by blast
qed

lemma Contains_loop_ok:
  assumes "m bf \<noteq> 0" and "unat (m bf) \<le> 64 * length (bits bf)" and "0 \<notin> set ss"
  shows "\<exists>bf'. Contains_loop H r item ss bf =
             Inr (list_all (\<lambda>seed. bit_at bf (unat (H seed [item] mod m bf))) ss, bf')
           \<and> bf' = bf\<lparr>hasher := hasher bf'\<rparr>"
  using assms
proof (induction ss arbitrary: bf)
  case Nil
  then show ?case by simp
next
  case (Cons seed rest)
  let ?bf1 = "bf\<lparr>hasher := \<lparr>hseed = seed, hbuf = [item]\<rparr>\<rparr>"
  have seed: "seed \<noteq> 0" and rest: "0 \<notin> set rest"
    using Cons.prems(3) by auto
  have h: "hashItem H r bf item seed = Inr (H seed [item], ?bf1)"
    by (rule hashItem_Inr [OF seed])
  have m1: "m ?bf1 \<noteq> 0" and l1: "unat (m ?bf1) \<le> 64 * length (bits ?bf1)"
    using Cons.prems(1,2) by simp_all
  have t: "testBit (H seed [item]) ?bf1 = Inr (bit_at bf (unat (H seed [item] mod m bf)))"
    by (simp add: testBit_Inr [OF m1 l1] bit_at_def)
  from Cons.IH [OF m1 l1 rest]
  obtain bf' where c: "Contains_loop H r item rest ?bf1 =
        Inr (list_all (\<lambda>seed. bit_at ?bf1 (unat (H seed [item] mod m ?bf1))) rest, bf')"
    and f': "bf' = ?bf1\<lparr>hasher := hasher bf'\<rparr>"
    by blast
  have same: "bit_at ?bf1 q \<longleftrightarrow> bit_at bf q" for q
    by (simp add: bit_at_def)
  show ?case
  proof (cases "bit_at bf (unat (H seed [item] mod m bf))")
    case True
    have "bf' = bf\<lparr>hasher := hasher bf'\<rparr>"
      by (subst f') simp
    then show ?thesis
      using True by (simp add: h t c same)
  next
    case False
    then show ?thesis
      by (simp add: h t)
  qed
qed

lemma Add_ok:
  assumes "Filter_inv bf"
  shows "\<exists>bf'. Add H r item bf = Inr bf'
           \<and> bf' = bf\<lparr>bits := bits bf', hasher := hasher bf', entries := entries bf + 1\<rparr>
           \<and> length (bits bf') = length (bits bf)
           \<and> (\<forall>q. bit_at bf' q \<longleftrightarrow> bit_at bf q \<or> q \<in> set (positions H bf item))"
proof -
  let ?bf0 = "bf\<lparr>entries := entries bf + 1\<rparr>"
  have "m ?bf0 \<noteq> 0" and "unat (m ?bf0) \<le> 64 * length (bits ?bf0)"
    and "0 \<notin> set (seeds ?bf0)"
    using assms by (simp_all add: Filter_inv_def)
  from Add_loop_ok [OF this, of H r item]
  obtain bf' where a: "Add_loop H r item (seeds ?bf0) ?bf0 = Inr bf'"
    and f: "bf' = ?bf0\<lparr>bits := bits bf', hasher := hasher bf'\<rparr>"
    and len: "length (bits bf') = length (bits ?bf0)"
    and b: "\<forall>q. bit_at bf' q \<longleftrightarrow>
              bit_at ?bf0 q \<or> q \<in> (\<lambda>seed. unat (H seed [item] mod m ?bf0)) ` set (seeds ?bf0)"
    by blast
  have "Add H r item bf = Inr bf'"
    using a by (simp add: Add_def)
  moreover have "bf' = bf\<lparr>bits := bits bf', hasher := hasher bf', entries := entries bf + 1\<rparr>"
    by (subst f) simp
  moreover have "length (bits bf') = length (bits bf)"
    using len by simp
  moreover have "bit_at ?bf0 q \<longleftrightarrow> bit_at bf q" for q
    by (simp add: bit_at_def)
  then have "\<forall>q. bit_at bf' q \<longleftrightarrow> bit_at bf q \<or> q \<in> set (positions H bf item)"
    using b by (simp add: positions_def)
  ultimately show ?thesis by blast
qed

lemma Contains_ok:
  assumes "Filter_inv bf"
  shows "\<exists>bf'. Contains H r item bf = Inr (list_all (bit_at bf) (positions H bf item), bf')
           \<and> bf' = bf\<lparr>hasher := hasher bf'\<rparr>"
proof -
  have "m bf \<noteq> 0" and "unat (m bf) \<le> 64 * length (bits bf)" and "0 \<notin> set (seeds bf)"
    using assms by (simp_all add: Filter_inv_def)
  from Contains_loop_ok [OF this, of H r item]
  show ?thesis
    by (simp add: Contains_def positions_def list_all_iff)
qed

lemma Filter_inv_frame:
  assumes "Filter_inv bf" and "m bf' = m bf" and "seeds bf' = seeds bf"
    and "length (bits bf') = length (bits bf)"
  shows "Filter_inv bf'"
  using assms by (simp add: Filter_inv_def)

lemma Add_keeps:
  assumes "Filter_inv bf" and "Add H r item bf = Inr bf'"
  shows "Filter_inv bf' \<and> m bf' = m bf \<and> seeds bf' = seeds bf
           \<and> length (bits bf') = length (bits bf)
           \<and> (\<forall>q. bit_at bf q \<longrightarrow> bit_at bf' q)"
proof -
  obtain b where a: "Add H r item bf = Inr b"
    and f: "b = bf\<lparr>bits := bits b, hasher := hasher b, entries := entries bf + 1\<rparr>"
    and len: "length (bits b) = length (bits bf)"
    and bt: "\<forall>q. bit_at b q \<longleftrightarrow> bit_at bf q \<or> q \<in> set (positions H bf item)"
    using Add_ok [OF assms(1), of H r item] by blast
  have eq: "bf' = b"
    using a assms(2) by simp
  have "m b = m bf" and "seeds b = seeds bf"
    by (subst f, simp)+
  then show ?thesis
    using Filter_inv_frame [OF assms(1), of b] len bt eq by simp
qed

lemma Contains_keeps:
  assumes "Filter_inv bf" and "Contains H r item bf = Inr (res, bf')"
  shows "Filter_inv bf' \<and> m bf' = m bf \<and> seeds bf' = seeds bf
           \<and> bits bf' = bits bf \<and> entries bf' = entries bf"
proof -
  obtain b where a: "Contains H r item bf = Inr (list_all (bit_at bf) (positions H bf item), b)"
    and f: "b = bf\<lparr>hasher := hasher b\<rparr>"
    using Contains_ok [OF assms(1), of H r item] by blast
  have eq: "bf' = b"
    using a assms(2) by simp
  have "m b = m bf" and "seeds b = seeds bf" and "bits b = bits bf" and "entries b = entries bf"
    by (subst f, simp)+
  then show ?thesis
    using Filter_inv_frame [OF assms(1), of b] eq by simp
qed

lemma run_ok:
  assumes "Filter_inv bf"
  shows "\<exists>bf'. run H r cs bf = Inr bf' \<and> Filter_inv bf' \<and> m bf' = m bf
           \<and> seeds bf' = seeds bf \<and> length (bits bf') = length (bits bf)
           \<and> (\<forall>q. bit_at bf q \<longrightarrow> bit_at bf' q)"
  using assms
proof (induction cs arbitrary: bf)
  case Nil
  then show ?case by simp
next
  case (Cons c cs)
  show ?case
  proof (cases c)
    case (CallAdd x)
    obtain b where a: "Add H r x bf = Inr b"
      using Add_ok [OF Cons.prems, of H r x] by blast
    note k = Add_keeps [OF Cons.prems a]
    from Cons.IH [of b] k obtain bf' where "run H r cs b = Inr bf'" and "Filter_inv bf'"
      and "m bf' = m b" and "seeds bf' = seeds b" and "length (bits bf') = length (bits b)"
      and "\<forall>q. bit_at b q \<longrightarrow> bit_at bf' q"
      by blast
    then show ?thesis
      using k a CallAdd by simp
  next
    case (CallContains x)
    obtain res b where a: "Contains H r x bf = Inr (res, b)"
      using Contains_ok [OF Cons.prems, of H r x] by blast
    note k = Contains_keeps [OF Cons.prems a]
    have same: "bit_at b q \<longleftrightarrow> bit_at bf q" for q
      using k by (simp add: bit_at_def)
    from Cons.IH [of b] k obtain bf' where "run H r cs b = Inr bf'" and "Filter_inv bf'"
      and "m bf' = m b" and "seeds bf' = seeds b" and "length (bits bf') = length (bits b)"
      and "\<forall>q. bit_at b q \<longrightarrow> bit_at bf' q"
      by blast
    then show ?thesis
      using k a CallContains same by simp
  qed
qed

section \<open>The loops of the two variants agree\<close>

text \<open>
  Counting \<open>i\<close> up to \<open>k\<close> and indexing \<open>seeds\<close> is ranging over \<open>seeds\<close> when
  \<open>k\<close> is the number of seeds; this holds for the panics as well.
\<close>


lemma hashItem_frame:
  assumes "hashItem H r bf item seed = Inr (hash, bf1)"
  shows "bf1 = bf\<lparr>hasher := hasher bf1\<rparr>"
  using assms
  by (auto simp add: hashItem_def Let_def SetSeed_def split: if_splits prod.splits)

lemma setBit_frame:
  assumes "setBit hash bf1 = Inr bf2"
  shows "bf2 = bf1\<lparr>bits := bits bf2\<rparr>"
  using assms
  by (auto simp add: setBit_def Let_def split: if_splits)

lemma unat_Suc_less:
  fixes i :: uint64
  assumes "i < j"
  shows "unat (i + 1) = Suc (unat i)"
proof -
  have "unat i < unat j"
    using assms by (simp add: word_less_nat_alt)
  moreover have "unat j < 2 ^ 64"
    using unsigned_less [of j] by simp
  ultimately have "unat i + unat (1 :: uint64) < 2 ^ LENGTH(64)"
    by simp
  then show ?thesis
    using unat_add_lem [of i 1] by simp
qed

lemma Add_loop_v2_eq:
  assumes "unat (k bf) = length (seeds bf)"
  shows "Add_loop_v2 H r item i bf = Add_loop H r item (drop (unat i) (seeds bf)) bf"
  using assms
proof (induction H r item i bf rule: Add_loop_v2.induct)
  case (1 H r item i bf)
  show ?case
  proof (cases "i < k bf")
    case False
    then have "length (seeds bf) \<le> unat i"
      using "1.prems" by (simp add: word_less_nat_alt)
    then show ?thesis
      using False by (subst Add_loop_v2.simps) simp
  next
    case True
    then have lt: "unat i < length (seeds bf)"
      using "1.prems" by (simp add: word_less_nat_alt)
    have suc: "unat (i + 1) = Suc (unat i)"
      by (rule unat_Suc_less [OF True])
    have dr: "drop (unat i) (seeds bf) = seeds bf ! unat i # drop (Suc (unat i)) (seeds bf)"
      using lt by (simp add: Cons_nth_drop_Suc)
    show ?thesis
    proof (cases "hashItem H r bf item (seeds bf ! unat i)")
      case (Inl e)
      then show ?thesis
        using True lt dr by (subst Add_loop_v2.simps) simp
    next
      case (Inr hb)
      obtain hash bf1 where hb: "hb = (hash, bf1)"
        by (cases hb)
      note f1 = hashItem_frame [OF Inr [unfolded hb]]
      show ?thesis
      proof (cases "setBit hash bf1")
        case (Inl e)
        then show ?thesis
          using True lt dr Inr hb by (subst Add_loop_v2.simps) simp
      next
        case (Inr bf2)
        note f2 = setBit_frame [OF Inr]
        have k2: "k bf2 = k bf" and s2: "seeds bf2 = seeds bf"
          by (subst f2, subst f1, simp)+
        have nle: "\<not> length (seeds bf) \<le> unat i"
          using lt by simp
        have "Add_loop_v2 H r item (i + 1) bf2
                = Add_loop H r item (drop (unat (i + 1)) (seeds bf2)) bf2"
          using "1.IH" [OF True nle \<open>hashItem H r bf item (seeds bf ! unat i) = Inr hb\<close>
              hb [symmetric] Inr] "1.prems" k2 s2
          by simp
        then show ?thesis
          using True lt dr \<open>hashItem H r bf item (seeds bf ! unat i) = Inr hb\<close> hb Inr suc s2
          by (subst Add_loop_v2.simps) simp
      qed
    qed
  qed
qed

lemma Contains_loop_v2_eq:
  assumes "unat (k bf) = length (seeds bf)"
  shows "Contains_loop_v2 H r item i bf = Contains_loop H r item (drop (unat i) (seeds bf)) bf"
  using assms
proof (induction H r item i bf rule: Contains_loop_v2.induct)
  case (1 H r item i bf)
  show ?case
  proof (cases "i < k bf")
    case False
    then have "length (seeds bf) \<le> unat i"
      using "1.prems" by (simp add: word_less_nat_alt)
    then show ?thesis
      using False by (subst Contains_loop_v2.simps) simp
  next
    case True
    then have lt: "unat i < length (seeds bf)"
      using "1.prems" by (simp add: word_less_nat_alt)
    have suc: "unat (i + 1) = Suc (unat i)"
      by (rule unat_Suc_less [OF True])
    have dr: "drop (unat i) (seeds bf) = seeds bf ! unat i # drop (Suc (unat i)) (seeds bf)"
      using lt by (simp add: Cons_nth_drop_Suc)
    show ?thesis
    proof (cases "hashItem H r bf item (seeds bf ! unat i)")
      case (Inl e)
      then show ?thesis
        using True lt dr by (subst Contains_loop_v2.simps) simp
    next
      case (Inr hb)
      obtain hash bf1 where hb: "hb = (hash, bf1)"
        by (cases hb)
      note f1 = hashItem_frame [OF Inr [unfolded hb]]
      have k1: "k bf1 = k bf" and s1: "seeds bf1 = seeds bf"
        by (subst f1, simp)+
      show ?thesis
      proof (cases "testBit hash bf1")
        case (Inl e)
        then show ?thesis
          using True lt dr Inr hb by (subst Contains_loop_v2.simps) simp
      next
        case (Inr b)
        show ?thesis
        proof (cases b)
          case False
          then show ?thesis
            using True lt dr \<open>hashItem H r bf item (seeds bf ! unat i) = Inr hb\<close> hb Inr
            by (subst Contains_loop_v2.simps) simp
        next
          case b: True
          have nle: "\<not> length (seeds bf) \<le> unat i"
            using lt by simp
          have nb: "\<not> \<not> b"
            using b by simp
          have "Contains_loop_v2 H r item (i + 1) bf1
                  = Contains_loop H r item (drop (unat (i + 1)) (seeds bf1)) bf1"
            using "1.IH" [OF True nle \<open>hashItem H r bf item (seeds bf ! unat i) = Inr hb\<close>
                hb [symmetric] Inr nb] "1.prems" k1 s1
            by simp
          then show ?thesis
            using True lt dr \<open>hashItem H r bf item (seeds bf ! unat i) = Inr hb\<close> hb Inr suc s1 b
            by (subst Contains_loop_v2.simps) simp
        qed
      qed
    qed
  qed
qed

lemma Add_v2_eq:
  assumes "unat (k bf) = length (seeds bf)"
  shows "Add_v2 H r item bf = Add H r item bf"
  using Add_loop_v2_eq [of "bf\<lparr>entries := entries bf + 1\<rparr>" H r item 0] assms
  by (simp add: Add_v2_def Add_def)

lemma Contains_v2_eq:
  assumes "unat (k bf) = length (seeds bf)"
  shows "Contains_v2 H r item bf = Contains H r item bf"
  using Contains_loop_v2_eq [of bf H r item 0] assms
  by (simp add: Contains_v2_def Contains_def)

lemma EstimatedFalsePositiveRate_v2_eq:
  assumes "unat (k bf) = length (seeds bf)"
  shows "EstimatedFalsePositiveRate_v2 bf = EstimatedFalsePositiveRate bf"
  using assms
  by (simp add: EstimatedFalsePositiveRate_v2_def EstimatedFalsePositiveRate_def Let_def)

section \<open>What a call changes, whether or not it panics\<close>


lemma Add_loop_frame:
  "Add_loop H r item ss bf = Inr bf' \<Longrightarrow> bf' = bf\<lparr>bits := bits bf', hasher := hasher bf'\<rparr>"
proof (induction ss arbitrary: bf)
  case Nil
  then show ?case by simp
next
  case (Cons seed rest)
  from Cons.prems obtain hash bf1 bf2 where h: "hashItem H r bf item seed = Inr (hash, bf1)"
    and s: "setBit hash bf1 = Inr bf2" and a: "Add_loop H r item rest bf2 = Inr bf'"
    by (auto split: sum.splits)
  note f1 = hashItem_frame [OF h] and f2 = setBit_frame [OF s] and f3 = Cons.IH [OF a]
  show ?case
    by (subst f3, subst f2, subst f1) simp
qed

lemma Add_frame:
  assumes "Add H r item bf = Inr bf'"
  shows "bf' = bf\<lparr>bits := bits bf', hasher := hasher bf', entries := entries bf + 1\<rparr>"
proof -
  have e: "bf' = (bf\<lparr>entries := entries bf + 1\<rparr>)\<lparr>bits := bits bf', hasher := hasher bf'\<rparr>"
    using assms Add_loop_frame [of H r item "seeds bf" "bf\<lparr>entries := entries bf + 1\<rparr>" bf']
    by (simp add: Add_def)
  show ?thesis
    by (subst e) simp
qed

lemma Contains_loop_frame:
  "Contains_loop H r item ss bf = Inr (res, bf') \<Longrightarrow> bf' = bf\<lparr>hasher := hasher bf'\<rparr>"
proof (induction ss arbitrary: bf)
  case Nil
  then show ?case by simp
next
  case (Cons seed rest)
  from Cons.prems obtain hash bf1 b where h: "hashItem H r bf item seed = Inr (hash, bf1)"
    and t: "testBit hash bf1 = Inr b"
    and c: "if \<not> b then bf' = bf1 else Contains_loop H r item rest bf1 = Inr (res, bf')"
    by (auto split: sum.splits if_splits)
  note f1 = hashItem_frame [OF h]
  show ?case
  proof (cases b)
    case False
    then show ?thesis using c f1 by simp
  next
    case True
    then have "bf' = bf1\<lparr>hasher := hasher bf'\<rparr>"
      using c Cons.IH by simp
    then show ?thesis
      by (subst (asm) f1) simp
  qed
qed

lemma Contains_frame:
  "Contains H r item bf = Inr (res, bf') \<Longrightarrow> bf' = bf\<lparr>hasher := hasher bf'\<rparr>"
  by (simp add: Contains_def Contains_loop_frame)

lemma run_v2_eq:
  assumes "unat (k bf) = length (seeds bf)"
  shows "run_v2 H r cs bf = run H r cs bf"
  using assms
proof (induction cs arbitrary: bf)
  case Nil
  then show ?case by simp
next
  case (Cons c cs)
  show ?case
  proof (cases c)
    case (CallAdd x)
    show ?thesis
    proof (cases "Add H r x bf")
      case (Inl e)
      then show ?thesis
        using CallAdd Cons.prems by (simp add: Add_v2_eq)
    next
      case (Inr b)
      have "k b = k bf" and "seeds b = seeds bf"
        by (subst Add_frame [OF Inr], simp)+
      then have "run_v2 H r cs b = run H r cs b"
        using Cons.IH [of b] Cons.prems by simp
      then show ?thesis
        using CallAdd Cons.prems Inr by (simp add: Add_v2_eq)
    qed
  next
    case (CallContains x)
    show ?thesis
    proof (cases "Contains H r x bf")
      case (Inl e)
      then show ?thesis
        using CallContains Cons.prems by (simp add: Contains_v2_eq)
    next
      case (Inr rb)
      obtain res b where rb: "rb = (res, b)"
        by (cases rb)
      have "k b = k bf" and "seeds b = seeds bf"
        by (subst Contains_frame [OF Inr [unfolded rb]], simp)+
      then have "run_v2 H r cs b = run H r cs b"
        using Cons.IH [of b] Cons.prems by simp
      then show ?thesis
        using CallContains Cons.prems Inr rb by (simp add: Contains_v2_eq)
    qed
  qed
qed

lemma bit_at_raw:
  assumes "i < length (bits bf)"
  shows "bit (bits bf ! i) j \<longleftrightarrow> j < 64 \<and> bit_at bf (64 * i + j)"
proof (cases "j < 64")
  case True
  then show ?thesis
    using assms by (simp add: bit_at_def)
next
  case False
  then have "\<not> bit (bits bf ! i) j"
    using bit_imp_le_length [of "bits bf ! i" j] by auto
  then show ?thesis
    using False by simp
qed

lemma run_bits_mono:
  assumes "Filter_inv bf"
  shows "\<exists>bf'. run H r cs bf = Inr bf' \<and> length (bits bf') = length (bits bf)
           \<and> (\<forall>i j. i < length (bits bf) \<and> bit (bits bf ! i) j \<longrightarrow> bit (bits bf' ! i) j)"
proof -
  obtain bf' where ru: "run H r cs bf = Inr bf'" and len: "length (bits bf') = length (bits bf)"
    and mono: "\<forall>q. bit_at bf q \<longrightarrow> bit_at bf' q"
    using run_ok [OF assms, of H r cs] by blast
  have "bit (bits bf' ! i) j" if "i < length (bits bf)" and "bit (bits bf ! i) j" for i j
    using that mono len bit_at_raw [of i bf j] bit_at_raw [of i bf' j] by simp
  then show ?thesis
    using ru len by blast
qed

lemma hashItem_result:
  assumes "hashItem H r bf item seed = Inr (hash, bf1)"
  shows "hash = H seed [item] \<and> hasher bf1 = \<lparr>hseed = seed, hbuf = [item]\<rparr>"
proof (cases "seed = 0")
  case True
  then show ?thesis
    using assms by (simp add: hashItem_Inl)
next
  case False
  then show ?thesis
    using assms by (auto simp add: hashItem_Inr)
qed

lemma Contains_loop_hasher:
  "Contains_loop H r item ss bf = Inr (res, bf') \<Longrightarrow> ss \<noteq> []
     \<Longrightarrow> hbuf (hasher bf') = [item] \<and> hseed (hasher bf') \<in> set ss"
proof (induction ss arbitrary: bf)
  case Nil
  then show ?case by simp
next
  case (Cons seed rest)
  from Cons.prems(1) obtain hash bf1 b where h: "hashItem H r bf item seed = Inr (hash, bf1)"
    and t: "testBit hash bf1 = Inr b"
    and c: "if \<not> b then bf' = bf1 else Contains_loop H r item rest bf1 = Inr (res, bf')"
    by (auto split: sum.splits if_splits)
  note h1 = hashItem_result [OF h]
  show ?case
  proof (cases "b \<and> rest \<noteq> []")
    case True
    then show ?thesis
      using c Cons.IH [of bf1] by simp
  next
    case False
    then have "bf' = bf1"
      using c by (cases b) auto
    then show ?thesis
      using h1 by simp
  qed
qed

section \<open>Sizing: the arithmetic\<close>

text \<open>
  Bounds on the logarithms, the conversion to \<open>uint\<close> within its range, and the
  values of the sizing functions where they are defined.
\<close>

lemma ln2_pos: "0 < ln (2 :: real)"
  by simp

lemma ln2_le_1: "ln (2 :: real) \<le> 1"
  using ln_le_minus_one [of "2 :: real"] by simp

lemma uint_of_float64_of_int:
  assumes "0 \<le> z" and "z < 2 ^ 64"
  shows "uint_of_float64 (of_int z) = Inr (word_of_int z)"
proof -
  have "(of_int z :: real) < of_int (2 ^ 64)"
    using assms(2) by (simp only: of_int_less_iff)
  then have "(of_int z :: real) < 2 ^ 64"
    by simp
  moreover have "(0 :: real) \<le> of_int z"
    using assms(1) by (simp only: of_int_0_le_iff)
  ultimately have "- 1 < (of_int z :: real) \<and> (of_int z :: real) < 2 ^ 64"
    and "\<not> (of_int z :: real) < 0"
    by linarith+
  then show ?thesis
    unfolding uint_of_float64_def by (simp only: if_True if_False floor_of_int simp_thms)
qed

lemma uint_of_float64_Ceil:
  assumes "0 \<le> x" and "x \<le> 2 ^ 64 - 1"
  shows "uint_of_float64 (Ceil x) = Inr (word_of_int \<lceil>x\<rceil>)"
    and "uint (word_of_int \<lceil>x\<rceil> :: uint64) = \<lceil>x\<rceil>"
proof -
  have lo: "0 \<le> \<lceil>x\<rceil>"
    using assms(1) by (simp add: le_ceiling_iff)
  have "\<lceil>x\<rceil> \<le> 2 ^ 64 - 1"
    using assms(2) by (simp add: ceiling_le_iff)
  then have hi: "\<lceil>x\<rceil> < 2 ^ 64"
    by simp
  show "uint_of_float64 (Ceil x) = Inr (word_of_int \<lceil>x\<rceil>)"
    unfolding Ceil_def by (rule uint_of_float64_of_int [OF lo hi])
  show "uint (word_of_int \<lceil>x\<rceil> :: uint64) = \<lceil>x\<rceil>"
    using lo hi by (simp add: uint_word_of_int)
qed


lemma scale_down:
  fixes M n L :: real
  assumes "0 < M" and "1 \<le> n" and "0 < L" and "L \<le> 1"
  shows "0 < M / n * L" and "M / n * L \<le> M"
proof -
  have n: "0 < n"
    using assms(2) by linarith
  have q: "0 < M / n"
    using assms(1) n by (rule divide_pos_pos)
  then show "0 < M / n * L"
    using assms(3) by (rule mult_pos_pos)
  have "M / n \<le> M"
    using assms(1,2) n by (simp add: field_simps)
  moreover have "M / n * L \<le> M / n * 1"
    using q assms(4) by (intro mult_left_mono) linarith+
  ultimately show "M / n * L \<le> M"
    by linarith
qed

lemma sizing_facts:
  assumes "1 \<le> unat n" and "0 < p" and "p < 1"
  shows "0 < - real (unat n) * ln p / (ln 2) ^ 2"
    and "0 < - real (unat n) * ln p / (ln 2) ^ 2 / real (unat n) * ln 2"
    and "- real (unat n) * ln p / (ln 2) ^ 2 / real (unat n) * ln 2
           \<le> - real (unat n) * ln p / (ln 2) ^ 2"
proof -
  let ?n = "real (unat n)"
  let ?M = "- ?n * ln p / (ln 2) ^ 2"
  have n: "1 \<le> ?n"
    using assms(1) by linarith
  have lp: "ln p < 0"
    using assms(2,3) by simp
  have "0 < (- ?n) * ln p"
    using n lp by (intro mult_neg_neg) linarith+
  moreover have "0 < (ln 2 :: real) ^ 2"
    using ln2_pos by (rule zero_less_power)
  ultimately show M: "0 < ?M"
    by (rule divide_pos_pos)
  show "0 < ?M / ?n * ln 2"
    by (rule scale_down(1) [OF M n ln2_pos ln2_le_1])
  show "?M / ?n * ln 2 \<le> ?M"
    by (rule scale_down(2) [OF M n ln2_pos ln2_le_1])
qed

lemma word_ge_1:
  fixes w :: uint64
  assumes "1 \<le> uint w"
  shows "1 \<le> w" and "max w 1 = w" and "\<not> w < 1" and "w \<noteq> 0"
proof -
  show 1: "1 \<le> w"
    using assms by (simp add: word_le_def)
  then show "max w 1 = w"
    by (simp add: max_def)
  show "\<not> w < 1"
    using 1 by (simp only: not_less)
  show "w \<noteq> 0"
  proof
    assume "w = 0"
    then have "uint w = 0" by simp
    then show False using assms by linarith
  qed
qed

lemma bloomParams_Inr:
  assumes "1 \<le> unat n" and "0 < p" and "p < 1"
    and "- real (unat n) * ln p / (ln 2) ^ 2 \<le> 2 ^ 64 - 1"
  shows "bloomParams n p =
           Inr (word_of_int \<lceil>- real (unat n) * ln p / (ln 2) ^ 2\<rceil>,
                word_of_int \<lceil>- real (unat n) * ln p / (ln 2) ^ 2 / real (unat n) * ln 2\<rceil>)"
proof -
  let ?n = "real (unat n)"
  let ?M = "- ?n * ln p / (ln 2) ^ 2"
  let ?K = "?M / ?n * ln 2"
  note f = sizing_facts [OF assms(1-3)]
  have K: "?K \<le> 2 ^ 64 - 1"
    using f(3) assms(4) by linarith
  have cm: "uint_of_float64 (Ceil ?M) = Inr (word_of_int \<lceil>?M\<rceil>)"
    using uint_of_float64_Ceil(1) [of ?M] f(1) assms(4) by simp
  have ck: "uint_of_float64 (Ceil ?K) = Inr (word_of_int \<lceil>?K\<rceil>)"
    and uk: "uint (word_of_int \<lceil>?K\<rceil> :: uint64) = \<lceil>?K\<rceil>"
    using uint_of_float64_Ceil [of ?K] f(2) K by simp_all
  have "1 \<le> \<lceil>?K\<rceil>"
    using f(2) by (simp add: le_ceiling_iff)
  then have mx: "max (word_of_int \<lceil>?K\<rceil> :: uint64) 1 = word_of_int \<lceil>?K\<rceil>"
    using word_ge_1(2) [of "word_of_int \<lceil>?K\<rceil>"] uk by simp
  have "1 \<le> ?n"
    using assms(1) by linarith
  then have g: "\<not> (p \<le> 0 \<or> ?n = 0)"
    using assms(2) by linarith
  show ?thesis
    unfolding bloomParams_def Let_def
    by (simp only: g if_False cm ck mx sum.case)
qed

lemma ln2_gt: "3 / 5 < ln (2 :: real)"
proof -
  have "exp (3 / 5 :: real) \<le> 1 + 3 / 5 + (3 / 5) ^ 2"
    by (rule exp_bound) simp_all
  also have "\<dots> < 2"
    by (simp add: power2_eq_square)
  finally have "exp (3 / 5 :: real) < exp (ln 2)"
    by simp
  then show ?thesis
    by (simp only: exp_less_cancel_iff)
qed

lemma ln2_le: "ln (2 :: real) \<le> 3 / 4"
proof -
  have "(2 :: real) \<le> 1 + 3 / 4 + (3 / 4) ^ 2 / 2"
    by (simp add: power2_eq_square)
  also have "\<dots> \<le> exp (3 / 4)"
    by (rule exp_lower_Taylor_quadratic) simp
  finally have "exp (ln 2) \<le> exp (3 / 4 :: real)"
    by simp
  then show ?thesis
    by (simp only: exp_le_cancel_iff)
qed

lemma ln_32_17_gt: "9 / 16 < ln (32 / 17 :: real)"
proof -
  have "exp (9 / 16 :: real) \<le> 1 + 9 / 16 + (9 / 16) ^ 2"
    by (rule exp_bound) simp_all
  also have "\<dots> < 32 / 17"
    by (simp add: power2_eq_square)
  finally have "exp (9 / 16 :: real) < exp (ln (32 / 17))"
    by simp
  then show ?thesis
    by (simp only: exp_less_cancel_iff)
qed

lemma ln_32_17_le: "ln (32 / 17 :: real) \<le> 18 / 25"
proof -
  have "(32 / 17 :: real) \<le> 1 + 18 / 25 + (18 / 25) ^ 2 / 2"
    by (simp add: power2_eq_square)
  also have "\<dots> \<le> exp (18 / 25)"
    by (rule exp_lower_Taylor_quadratic) simp
  finally have "exp (ln (32 / 17)) \<le> exp (18 / 25 :: real)"
    by simp
  then show ?thesis
    by (simp only: exp_le_cancel_iff)
qed

lemma ln_17_32: "ln (17 / 32 :: real) = - ln (32 / 17)"
  using ln_inverse [of "32 / 17 :: real"] by simp

text \<open>The sizes for one expected item and a false-positive rate of 17/32.\<close>

lemma example_M:
  "1 < - real (unat (1 :: uint64)) * ln (17 / 32) / (ln 2) ^ 2"
  "- real (unat (1 :: uint64)) * ln (17 / 32) / (ln 2) ^ 2 \<le> 2"
proof -
  let ?a = "ln (32 / 17 :: real)" and ?L = "ln (2 :: real)"
  have L2: "0 < ?L ^ 2"
    using ln2_pos by (rule zero_less_power)
  have "?L ^ 2 \<le> (3 / 4) ^ 2"
    using ln2_pos ln2_le by (intro power_mono) linarith+
  then have up: "?L ^ 2 < ?a"
    using ln_32_17_gt by (simp add: power2_eq_square)
  have "(3 / 5) ^ 2 \<le> ?L ^ 2"
    using ln2_gt by (intro power_mono) linarith+
  then have lo: "?a \<le> 2 * ?L ^ 2"
    using ln_32_17_le by (simp add: power2_eq_square)
  have e: "- real (unat (1 :: uint64)) * ln (17 / 32) / ?L ^ 2 = ?a / ?L ^ 2"
    by (simp add: ln_17_32)
  show "1 < - real (unat (1 :: uint64)) * ln (17 / 32) / (ln 2) ^ 2"
    unfolding e using up L2 by (simp add: less_divide_eq)
  show "- real (unat (1 :: uint64)) * ln (17 / 32) / (ln 2) ^ 2 \<le> 2"
    unfolding e using lo L2 by (simp add: divide_le_eq)
qed

lemma example_K:
  "0 < - real (unat (1 :: uint64)) * ln (17 / 32) / (ln 2) ^ 2 / real (unat (1 :: uint64)) * ln 2"
  "- real (unat (1 :: uint64)) * ln (17 / 32) / (ln 2) ^ 2 / real (unat (1 :: uint64)) * ln 2 \<le> 1"
proof -
  let ?a = "ln (32 / 17 :: real)" and ?L = "ln (2 :: real)"
  have e: "- real (unat (1 :: uint64)) * ln (17 / 32) / ?L ^ 2 / real (unat (1 :: uint64)) * ?L
             = ?a / ?L"
    using ln2_pos by (simp add: ln_17_32 power2_eq_square)
  have "?a \<le> ?L"
    by simp
  then show "- real (unat (1 :: uint64)) * ln (17 / 32) / (ln 2) ^ 2 / real (unat (1 :: uint64)) * ln 2 \<le> 1"
    unfolding e using ln2_pos by (simp add: divide_le_eq)
  have "0 < ?a"
    by simp
  then show "0 < - real (unat (1 :: uint64)) * ln (17 / 32) / (ln 2) ^ 2 / real (unat (1 :: uint64)) * ln 2"
    unfolding e using ln2_pos by (rule divide_pos_pos)
qed

lemma bloomParams_example: "bloomParams 1 (17 / 32) = Inr (2, 1)"
proof -
  have M: "\<lceil>- real (unat (1 :: uint64)) * ln (17 / 32) / (ln 2) ^ 2\<rceil> = 2"
    using example_M by (intro ceiling_unique) simp_all
  have K: "\<lceil>- real (unat (1 :: uint64)) * ln (17 / 32) / (ln 2) ^ 2
              / real (unat (1 :: uint64)) * ln 2\<rceil> = 1"
    using example_K by (intro ceiling_unique) simp_all
  have "- real (unat (1 :: uint64)) * ln (17 / 32) / (ln 2) ^ 2 \<le> 2 ^ 64 - 1"
    using example_M(2) by simp
  from bloomParams_Inr [of 1 "17 / 32", OF _ _ _ this]
  have "bloomParams 1 (17 / 32) =
      Inr (word_of_int \<lceil>- real (unat (1 :: uint64)) * ln (17 / 32) / (ln 2) ^ 2\<rceil>,
           word_of_int \<lceil>- real (unat (1 :: uint64)) * ln (17 / 32) / (ln 2) ^ 2
              / real (unat (1 :: uint64)) * ln 2\<rceil>)"
    by simp
  then show ?thesis
    by (simp only: M K) simp
qed

lemma optimalBitArraySize_Inr:
  assumes "1 \<le> unat n" and "0 < p" and "p < 1"
    and "- real (unat n) * ln p / (ln 2) ^ 2 \<le> 2 ^ 64 - 1"
  shows "optimalBitArraySize n p = Inr (word_of_int \<lceil>- real (unat n) * ln p / (ln 2) ^ 2\<rceil>)"
proof -
  have "uint_of_float64 (Ceil (- real (unat n) * ln p / (ln 2) ^ 2))
          = Inr (word_of_int \<lceil>- real (unat n) * ln p / (ln 2) ^ 2\<rceil>)"
    using uint_of_float64_Ceil(1) [of "- real (unat n) * ln p / (ln 2) ^ 2"]
      sizing_facts(1) [OF assms(1-3)] assms(4) by simp
  moreover have "\<not> p \<le> 0"
    using assms(2) by simp
  ultimately show ?thesis
    unfolding optimalBitArraySize_def by (simp only: if_False)
qed

lemma optimalHashFunctions_Inr:
  assumes "1 \<le> unat n"
  shows "\<exists>kh. optimalHashFunctions n mbits = Inr kh
           \<and> uint kh = max \<lceil>real (unat mbits) / real (unat n) * ln 2\<rceil> 1"
proof -
  let ?X = "real (unat mbits) / real (unat n) * ln 2"
  have n: "1 \<le> real (unat n)"
    using assms by linarith
  have n0: "n \<noteq> 0"
    using assms by (cases "n = 0") simp_all
  show ?thesis
  proof (cases "unat mbits = 0")
    case True
    then have X: "?X = 0"
      by (simp del: of_nat_unat)
    have c: "uint_of_float64 (Ceil ?X) = Inr 0"
      unfolding X by (simp add: Ceil_def uint_of_float64_def)
    have "optimalHashFunctions n mbits = Inr 1"
      unfolding optimalHashFunctions_def by (simp only: n0 if_False c sum.case) simp
    moreover have "max \<lceil>?X\<rceil> 1 = 1"
      unfolding X by simp
    ultimately show ?thesis by simp
  next
    case False
    then have mb: "0 < real (unat mbits)"
      by linarith
    have le: "real (unat mbits) \<le> 2 ^ 64 - 1"
    proof -
      have "unat mbits < 2 ^ 64"
        using unsigned_less [of mbits] by simp
      then have "unat mbits \<le> 2 ^ 64 - 1" by simp
      then have "real (unat mbits) \<le> real (2 ^ 64 - 1)"
        by (simp only: of_nat_le_iff)
      then show ?thesis by (simp del: of_nat_unat)
    qed
    note sd = scale_down [OF mb n ln2_pos ln2_le_1]
    have X: "0 \<le> ?X" "?X \<le> 2 ^ 64 - 1"
      using sd le by linarith+
    note c = uint_of_float64_Ceil [OF X]
    have ge: "1 \<le> \<lceil>?X\<rceil>"
      using sd(1) by (simp add: le_ceiling_iff)
    then have "1 \<le> uint (word_of_int \<lceil>?X\<rceil> :: uint64)"
      using c(2) by simp
    note w = word_ge_1 [OF this]
    have "optimalHashFunctions n mbits = Inr (word_of_int \<lceil>?X\<rceil>)"
      unfolding optimalHashFunctions_def by (simp only: n0 if_False c(1) sum.case w(3))
    moreover have "max \<lceil>?X\<rceil> 1 = \<lceil>?X\<rceil>"
      using ge by simp
    ultimately show ?thesis
      using c(2) by simp
  qed
qed

lemma optimalHashFunctions_example: "optimalHashFunctions 1 2 = Inr 2"
proof -
  obtain kh where o: "optimalHashFunctions 1 2 = Inr kh"
    and u: "uint kh = max \<lceil>real (unat (2 :: uint64)) / real (unat (1 :: uint64)) * ln 2\<rceil> 1"
    using optimalHashFunctions_Inr [of 1 2] by auto
  have "\<lceil>real (unat (2 :: uint64)) / real (unat (1 :: uint64)) * ln 2\<rceil> = 2"
    using ln2_gt ln2_le by (intro ceiling_unique) simp_all
  then have "uint kh = 2"
    using u by simp
  then have "uint kh = uint (2 :: uint64)"
    by simp
  then have "kh = 2"
    by (simp only: word_uint_eq_iff)
  then show ?thesis
    using o by simp
qed

lemma optimalBitArraySize_example: "optimalBitArraySize 1 (17 / 32) = Inr 2"
proof -
  have M: "\<lceil>- real (unat (1 :: uint64)) * ln (17 / 32) / (ln 2) ^ 2\<rceil> = 2"
    using example_M by (intro ceiling_unique) simp_all
  have "- real (unat (1 :: uint64)) * ln (17 / 32) / (ln 2) ^ 2 \<le> 2 ^ 64 - 1"
    using example_M(2) by simp
  from optimalBitArraySize_Inr [of 1 "17 / 32", OF _ _ _ this]
  have "optimalBitArraySize 1 (17 / 32)
          = Inr (word_of_int \<lceil>- real (unat (1 :: uint64)) * ln (17 / 32) / (ln 2) ^ 2\<rceil>)"
    by simp
  then show ?thesis
    by (simp only: M) simp
qed



lemma ceil_bound:
  fixes x :: real
  assumes "\<lceil>x\<rceil> < 2 ^ 64"
  shows "x \<le> 2 ^ 64 - 1"
proof -
  have "\<lceil>x\<rceil> \<le> 2 ^ 64 - 1"
    using assms by simp
  then have "x \<le> of_int (2 ^ 64 - 1)"
    by (simp only: ceiling_le_iff)
  then show ?thesis by simp
qed




lemma unat_ge_1:
  fixes n :: uint64
  assumes "1 \<le> n"
  shows "1 \<le> unat n"
  using assms by (simp add: word_le_nat_alt)


section \<open>The estimated rate: bounds and monotonicity\<close>

lemma rate_base:
  fixes kf nf mf :: real
  assumes "0 \<le> kf" and "0 \<le> nf" and "0 < mf"
  shows "0 \<le> 1 - exp (- kf * nf / mf)"
proof -
  have "0 \<le> kf * nf / mf"
    using assms by simp
  then have "- kf * nf / mf \<le> 0"
    by simp
  then have "exp (- kf * nf / mf) \<le> 1"
    by (simp only: exp_le_one_iff)
  then show ?thesis by simp
qed

lemma rate_mono:
  fixes kf a b mf :: real
  assumes "0 \<le> kf" and "0 \<le> a" and "a \<le> b" and "0 < mf"
  shows "(1 - exp (- kf * a / mf)) ^ j \<le> (1 - exp (- kf * b / mf)) ^ j"
proof -
  have "kf * a \<le> kf * b"
    using assms(1,3) by (rule mult_left_mono [rotated])
  then have "kf * a / mf \<le> kf * b / mf"
    using assms(4) by (simp add: divide_right_mono)
  then have "- kf * b / mf \<le> - kf * a / mf"
    by simp
  then have "exp (- kf * b / mf) \<le> exp (- kf * a / mf)"
    by (simp only: exp_le_cancel_iff)
  then have "1 - exp (- kf * a / mf) \<le> 1 - exp (- kf * b / mf)"
    by simp
  moreover have "0 \<le> 1 - exp (- kf * a / mf)"
    by (rule rate_base [OF assms(1,2,4)])
  ultimately show ?thesis
    by (rule power_mono)
qed

lemma unat_real_pos:
  fixes w :: uint64
  assumes "w \<noteq> 0"
  shows "0 < real (unat w)"
proof -
  have "0 < unat w"
    using assms by (simp add: unat_gt_0)
  then show ?thesis
    by linarith
qed

lemma EstimatedFalsePositiveRate_nonneg: "0 \<le> EstimatedFalsePositiveRate bf"
proof (cases "entries bf = 0 \<or> m bf = 0")
  case True
  then show ?thesis
    by (auto simp add: EstimatedFalsePositiveRate_def)
next
  case False
  then have e: "entries bf \<noteq> 0" and m0: "m bf \<noteq> 0"
    by simp_all
  have "0 \<le> 1 - exp (- real (length (seeds bf)) * real (unat (entries bf)) / real (unat (m bf)))"
    by (rule rate_base [OF _ _ unat_real_pos [OF m0]]) linarith+
  then have "0 \<le> (1 - exp (- real (length (seeds bf)) * real (unat (entries bf))
                      / real (unat (m bf)))) ^ length (seeds bf)"
    by (rule zero_le_power)
  then show ?thesis
    unfolding EstimatedFalsePositiveRate_def Let_def using e m0 by (simp only: if_False)
qed

lemma EstimatedFalsePositiveRate_mono:
  assumes "m bf' = m bf" and "seeds bf' = seeds bf"
    and "unat (entries bf) \<le> unat (entries bf')"
  shows "EstimatedFalsePositiveRate bf \<le> EstimatedFalsePositiveRate bf'"
proof (cases "entries bf = 0")
  case True
  then have "EstimatedFalsePositiveRate bf = 0"
    by (simp add: EstimatedFalsePositiveRate_def)
  then show ?thesis
    using EstimatedFalsePositiveRate_nonneg [of bf'] by simp
next
  case False
  then have "0 < unat (entries bf)"
    by (simp add: unat_gt_0)
  then have "0 < unat (entries bf')"
    using assms(3) by linarith
  then have e': "entries bf' \<noteq> 0"
    by (simp add: unat_gt_0)
  show ?thesis
  proof (cases "m bf = 0")
    case True
    then show ?thesis
      using False e' assms(1) by (simp add: EstimatedFalsePositiveRate_def)
  next
    case m0: False
    have m0': "m bf' \<noteq> 0"
      using m0 assms(1) by simp
    have le: "real (unat (entries bf)) \<le> real (unat (entries bf'))"
      using assms(3) by (simp only: of_nat_le_iff)
    have "(1 - exp (- real (length (seeds bf)) * real (unat (entries bf))
                      / real (unat (m bf)))) ^ length (seeds bf)
       \<le> (1 - exp (- real (length (seeds bf)) * real (unat (entries bf'))
                      / real (unat (m bf)))) ^ length (seeds bf)"
      by (rule rate_mono [OF _ _ le unat_real_pos [OF m0]]) linarith+
    moreover have "EstimatedFalsePositiveRate bf
        = (1 - exp (- real (length (seeds bf)) * real (unat (entries bf))
                      / real (unat (m bf)))) ^ length (seeds bf)"
      unfolding EstimatedFalsePositiveRate_def Let_def using False m0 by (simp only: if_False)
    moreover have "EstimatedFalsePositiveRate bf'
        = (1 - exp (- real (length (seeds bf)) * real (unat (entries bf'))
                      / real (unat (m bf)))) ^ length (seeds bf)"
      unfolding EstimatedFalsePositiveRate_def Let_def using e' m0' assms(1,2)
      by (simp only: if_False)
    ultimately show ?thesis
      by simp
  qed
qed

lemma entries_step:
  fixes e :: uint64
  assumes "e \<noteq> - 1"
  shows "unat e \<le> unat (e + 1)"
proof -
  have "e < - 1"
    using assms by (simp add: word_order.not_eq_extremum)
  then have "unat (e + 1) = Suc (unat e)"
    by (rule unat_Suc_less)
  then show ?thesis by simp
qed

lemma Add_rate:
  assumes "Filter_inv bf" and "entries bf \<noteq> - 1"
  shows "\<exists>bf'. Add H r x bf = Inr bf' \<and> entries bf' = entries bf + 1
           \<and> EstimatedFalsePositiveRate bf \<le> EstimatedFalsePositiveRate bf'"
proof -
  obtain bf' where a: "Add H r x bf = Inr bf'"
    and f: "bf' = bf\<lparr>bits := bits bf', hasher := hasher bf', entries := entries bf + 1\<rparr>"
    using Add_ok [OF assms(1), of H r x] by blast
  have "m bf' = m bf" and "seeds bf' = seeds bf" and e: "entries bf' = entries bf + 1"
    by (subst f, simp)+
  then have "EstimatedFalsePositiveRate bf \<le> EstimatedFalsePositiveRate bf'"
    using entries_step [OF assms(2)] by (intro EstimatedFalsePositiveRate_mono) simp_all
  then show ?thesis
    using a e by blast
qed

lemma EstimatedFalsePositiveRate_pos:
  assumes "entries bf \<noteq> 0" and "m bf \<noteq> 0" and "seeds bf \<noteq> []"
  shows "0 < EstimatedFalsePositiveRate bf"
proof -
  let ?kf = "real (length (seeds bf))" and ?nf = "real (unat (entries bf))"
    and ?mf = "real (unat (m bf))"
  have kf: "0 < ?kf"
    using assms(3) by simp
  note nf = unat_real_pos [OF assms(1)] and mf = unat_real_pos [OF assms(2)]
  have "0 < ?kf * ?nf"
    using kf nf by (rule mult_pos_pos)
  then have "0 < ?kf * ?nf / ?mf"
    using mf by (rule divide_pos_pos)
  then have "- ?kf * ?nf / ?mf < 0"
    by simp
  then have "exp (- ?kf * ?nf / ?mf) < 1"
    by (simp only: exp_less_one_iff)
  then have "0 < 1 - exp (- ?kf * ?nf / ?mf)"
    by simp
  then have "0 < (1 - exp (- ?kf * ?nf / ?mf)) ^ length (seeds bf)"
    by (rule zero_less_power)
  then show ?thesis
    unfolding EstimatedFalsePositiveRate_def Let_def using assms(1,2) by (simp only: if_False)
qed

section \<open>No false negatives\<close>

text \<open>
  Claim C1. After \<open>Add x\<close>, \<open>Contains x\<close> returns true, and it still returns true
  after any further sequence of calls (further \<open>Add\<close> calls on arbitrary items, and
  \<open>Contains\<close> calls as well). The filter is any filter that satisfies the invariant,
  which construction establishes (lemma \<open>NewBloomFilter_inv\<close>) and every call keeps
  (lemma \<open>run_ok\<close>); every call in the statement returns, none panics.
\<close>

theorem no_false_negatives:
  assumes "Filter_inv bf"
  shows "\<exists>bf1. Add H r x bf = Inr bf1
           \<and> (\<forall>cs. \<exists>bf2 bf3. run H r cs bf1 = Inr bf2 \<and> Contains H r x bf2 = Inr (True, bf3))"
proof -
  obtain bf1 where a: "Add H r x bf = Inr bf1"
    and bt: "\<forall>q. bit_at bf1 q \<longleftrightarrow> bit_at bf q \<or> q \<in> set (positions H bf x)"
    using Add_ok [OF assms, of H r x] by blast
  note k1 = Add_keeps [OF assms a]
  have "\<exists>bf2 bf3. run H r cs bf1 = Inr bf2 \<and> Contains H r x bf2 = Inr (True, bf3)" for cs
  proof -
    obtain bf2 where ru: "run H r cs bf1 = Inr bf2" and inv2: "Filter_inv bf2"
      and m2: "m bf2 = m bf1" and s2: "seeds bf2 = seeds bf1"
      and mono: "\<forall>q. bit_at bf1 q \<longrightarrow> bit_at bf2 q"
      using run_ok [of bf1 H r cs] k1 by blast
    have "positions H bf2 x = positions H bf x"
      using m2 s2 k1 by (simp add: positions_def)
    then have "list_all (bit_at bf2) (positions H bf2 x)"
      using bt mono by (simp add: list_all_iff)
    then show ?thesis
      using Contains_ok [OF inv2, of H r x] ru by auto
  qed
  then show ?thesis
    using a by blast
qed

theorem no_false_negatives_witness:
  "Filter_inv demo
   \<and> (\<exists>bf1 bf2 bf3. Add sample_hash 0 5 demo = Inr bf1
         \<and> run sample_hash 0 [CallAdd 7, CallContains 9] bf1 = Inr bf2
         \<and> Contains sample_hash 0 5 bf2 = Inr (True, bf3))"
proof -
  have inv: "Filter_inv demo"
    by (simp add: Filter_inv_def demo_def)
  then show ?thesis
    using no_false_negatives [OF inv, of sample_hash 0 5] by blast
qed

section \<open>The bits only grow\<close>

text \<open>
  Claim C6. Over any sequence of calls on a filter that satisfies the invariant, the
  array keeps its length and every bit that is set stays set. The first conjunct is
  the first variant, the second conjunct the second variant (whose field \<open>k\<close> is the
  number of its seeds, as construction sets it). Every call of the sequence returns.
\<close>

theorem bits_monotonic:
  assumes "Filter_inv bf" and "Filter_inv bf2" and "unat (k bf2) = length (seeds bf2)"
  shows "(\<exists>bf'. run H r cs bf = Inr bf' \<and> length (bits bf') = length (bits bf)
            \<and> (\<forall>i j. i < length (bits bf) \<and> bit (bits bf ! i) j \<longrightarrow> bit (bits bf' ! i) j))
       \<and> (\<exists>bf'. run_v2 H r cs bf2 = Inr bf' \<and> length (bits bf') = length (bits bf2)
            \<and> (\<forall>i j. i < length (bits bf2) \<and> bit (bits bf2 ! i) j \<longrightarrow> bit (bits bf' ! i) j))"
  using run_bits_mono [OF assms(1), of H r cs] run_bits_mono [OF assms(2), of H r cs]
  by (simp add: run_v2_eq [OF assms(3)])

theorem bits_monotonic_witness:
  "Filter_inv demo \<and> Filter_inv demo_v2 \<and> unat (k demo_v2) = length (seeds demo_v2)
   \<and> (\<exists>bf'. run sample_hash 0 [CallAdd 5, CallContains 5, CallAdd 7] demo = Inr bf'
         \<and> length (bits bf') = length (bits demo)
         \<and> (\<forall>i j. i < length (bits demo) \<and> bit (bits demo ! i) j \<longrightarrow> bit (bits bf' ! i) j))
   \<and> (\<exists>bf'. run_v2 sample_hash 0 [CallAdd 5, CallContains 5, CallAdd 7] demo_v2 = Inr bf'
         \<and> length (bits bf') = length (bits demo_v2)
         \<and> (\<forall>i j. i < length (bits demo_v2) \<and> bit (bits demo_v2 ! i) j
               \<longrightarrow> bit (bits bf' ! i) j))"
proof -
  have 1: "Filter_inv demo" and 2: "Filter_inv demo_v2"
    and 3: "unat (k demo_v2) = length (seeds demo_v2)"
    by (simp_all add: Filter_inv_def demo_def demo_v2_def)
  show ?thesis
    using 1 2 3
      bits_monotonic [OF 1 2 3, of sample_hash 0 "[CallAdd 5, CallContains 5, CallAdd 7]"]
    by blast
qed

section \<open>Contains reads everything but the hashing context\<close>

text \<open>
  Claim C7, as the code has it. \<open>Contains\<close> returns a boolean, the conjunction of the
  bits at the positions of the item, and leaves \<open>bits\<close>, \<open>m\<close>, \<open>seeds\<close> and
  \<open>entries\<close> as they were; the only field it writes is \<open>hasher\<close>, which
  \<open>hashItem\<close> resets, reseeds and feeds the item: afterwards the context holds the
  item and one of the seeds of the filter.
\<close>

theorem Contains_keeps_all_but_hasher:
  assumes "Filter_inv bf"
  shows "\<exists>res bf'. Contains H r x bf = Inr (res, bf')
           \<and> res = list_all (bit_at bf) (positions H bf x)
           \<and> bf' = bf\<lparr>hasher := hasher bf'\<rparr>
           \<and> bits bf' = bits bf \<and> m bf' = m bf \<and> seeds bf' = seeds bf
           \<and> entries bf' = entries bf
           \<and> (seeds bf \<noteq> [] \<longrightarrow>
                hbuf (hasher bf') = [x] \<and> hseed (hasher bf') \<in> set (seeds bf))"
proof -
  obtain bf' where c: "Contains H r x bf = Inr (list_all (bit_at bf) (positions H bf x), bf')"
    and f: "bf' = bf\<lparr>hasher := hasher bf'\<rparr>"
    using Contains_ok [OF assms, of H r x] by blast
  note kp = Contains_keeps [OF assms c]
  have "hbuf (hasher bf') = [x] \<and> hseed (hasher bf') \<in> set (seeds bf)" if "seeds bf \<noteq> []"
    using Contains_loop_hasher [of H r x "seeds bf" bf _ bf'] c that
    by (simp add: Contains_def)
  then show ?thesis
    using c f kp by blast
qed

theorem Contains_keeps_all_but_hasher_witness:
  "Filter_inv demo
   \<and> (\<exists>res bf'. Contains sample_hash 0 5 demo = Inr (res, bf')
         \<and> bits bf' = bits demo \<and> m bf' = m demo \<and> seeds bf' = seeds demo
         \<and> entries bf' = entries demo \<and> hbuf (hasher bf') = [5])"
proof -
  have 1: "Filter_inv demo"
    by (simp add: Filter_inv_def demo_def)
  have 2: "seeds demo \<noteq> []"
    by (simp add: demo_def)
  show ?thesis
    using 1 2 Contains_keeps_all_but_hasher [OF 1, of sample_hash 0 5]
    by blast
qed

text \<open>
  Claim C7 as stated, that the hashing scratch state is unchanged too, fails: on the
  example filter, whose context is the fresh \<open>maphash.Hash{}\<close>, a lookup of 5 leaves
  the context seeded with the first seed and holding 5.
\<close>

theorem Contains_writes_hasher:
  "Contains sample_hash 0 5 demo
     = Inr (False, demo\<lparr>hasher := \<lparr>hseed = 1, hbuf = [5]\<rparr>\<rparr>)
   \<and> hasher (demo\<lparr>hasher := \<lparr>hseed = 1, hbuf = [5]\<rparr>\<rparr>) \<noteq> hasher demo"
  by (simp add: Contains_def demo_def hashItem_def Reset_def initSeed_def SetSeed_def
      WriteComparable_def Sum64_def testBit_def sample_hash_def)

section \<open>Hashing is deterministic\<close>

text \<open>
  Claim C9. The hash of an item under a seed of the filter is \<open>H seed [x]\<close> whatever
  the hashing context holds and whatever seed the library would draw (\<open>r1\<close>,
  \<open>r2\<close>), before and after any sequence of calls; the calls change neither the seeds
  nor \<open>m\<close>, so the positions of the item stay the same, and these are the positions
  whose bits \<open>Add\<close> sets and \<open>Contains\<close> tests.
\<close>

theorem hashing_deterministic:
  assumes "Filter_inv bf"
  shows "\<exists>bf'. run H r cs bf = Inr bf'
           \<and> seeds bf' = seeds bf \<and> m bf' = m bf
           \<and> positions H bf' x = positions H bf x
           \<and> (\<forall>seed \<in> set (seeds bf). \<exists>b1 b2.
                 hashItem H r1 bf x seed = Inr (H seed [x], b1)
                 \<and> hashItem H r2 bf' x seed = Inr (H seed [x], b2))
           \<and> (\<exists>bfa bfc. Add H r x bf' = Inr bfa
                 \<and> (\<forall>q. bit_at bfa q \<longleftrightarrow> bit_at bf' q \<or> q \<in> set (positions H bf x))
                 \<and> Contains H r x bf' = Inr (list_all (bit_at bf') (positions H bf x), bfc))"
proof -
  obtain bf' where ru: "run H r cs bf = Inr bf'" and inv: "Filter_inv bf'"
    and m': "m bf' = m bf" and s': "seeds bf' = seeds bf"
    using run_ok [OF assms, of H r cs] by blast
  have p: "positions H bf' x = positions H bf x"
    using m' s' by (simp add: positions_def)
  have "\<exists>b1 b2. hashItem H r1 bf x seed = Inr (H seed [x], b1)
          \<and> hashItem H r2 bf' x seed = Inr (H seed [x], b2)" if "seed \<in> set (seeds bf)" for seed
  proof -
    have "seed \<noteq> 0"
      using that assms by (auto simp add: Filter_inv_def)
    then show ?thesis
      by (simp add: hashItem_Inr)
  qed
  moreover obtain bfa where "Add H r x bf' = Inr bfa"
    and "\<forall>q. bit_at bfa q \<longleftrightarrow> bit_at bf' q \<or> q \<in> set (positions H bf' x)"
    using Add_ok [OF inv, of H r x] by blast
  moreover obtain bfc where
    "Contains H r x bf' = Inr (list_all (bit_at bf') (positions H bf' x), bfc)"
    using Contains_ok [OF inv, of H r x] by blast
  ultimately show ?thesis
    using ru m' s' p by auto
qed

theorem hashing_deterministic_witness:
  "Filter_inv demo
   \<and> (\<exists>bf'. run sample_hash 0 [CallAdd 7, CallContains 9] demo = Inr bf'
         \<and> positions sample_hash bf' 5 = positions sample_hash demo 5
         \<and> (\<exists>b1 b2. hashItem sample_hash 3 demo 5 2 = Inr (sample_hash 2 [5], b1)
               \<and> hashItem sample_hash 4 bf' 5 2 = Inr (sample_hash 2 [5], b2)))"
proof -
  have 1: "Filter_inv demo"
    by (simp add: Filter_inv_def demo_def)
  have 2: "2 \<in> set (seeds demo)"
    by (simp add: demo_def)
  show ?thesis
    using 1 2
      hashing_deterministic [OF 1, of sample_hash 0 "[CallAdd 7, CallContains 9]" 5 3 4]
    by blast
qed

section \<open>The size of the bit array\<close>




section \<open>The number of hash functions\<close>




section \<open>Construction and the calls after it\<close>




section \<open>The two variants compared\<close>

text \<open>
  Claim C10, as the code has it. Where the size fits \<open>uint\<close>, the two variants
  compute the same \<open>m\<close>, and the number of hash functions of the first is at most
  that of the second. On the same state, with \<open>k\<close> the number of seeds, \<open>Add\<close>,
  \<open>Contains\<close> and \<open>EstimatedFalsePositiveRate\<close> of the two variants return the same
  (the same panic included).
\<close>

theorem variants_agree:
  assumes "1 \<le> n" and "0 < p" and "p < 1"
    and "\<lceil>- real (unat n) * ln p / (ln 2) ^ 2\<rceil> < 2 ^ 64"
    and "unat (k bf) = length (seeds bf)"
  shows "(\<exists>mbits kh kh2. bloomParams n p = Inr (mbits, kh)
            \<and> optimalBitArraySize n p = Inr mbits
            \<and> optimalHashFunctions n mbits = Inr kh2 \<and> kh \<le> kh2)
       \<and> Add_v2 H r x bf = Add H r x bf
       \<and> Contains_v2 H r x bf = Contains H r x bf
       \<and> EstimatedFalsePositiveRate_v2 bf = EstimatedFalsePositiveRate bf"
proof -
  let ?M = "- real (unat n) * ln p / (ln 2) ^ 2"
  let ?K = "?M / real (unat n) * ln 2"
  let ?mb = "word_of_int \<lceil>?M\<rceil> :: uint64"
  let ?kh = "word_of_int \<lceil>?K\<rceil> :: uint64"
  note n = unat_ge_1 [OF assms(1)]
  note M = ceil_bound [OF assms(4)]
  note f = sizing_facts [OF n assms(2,3)]
  have K: "?K \<le> 2 ^ 64 - 1"
    using f(3) M by linarith
  have um: "uint ?mb = \<lceil>?M\<rceil>"
    using uint_of_float64_Ceil(2) [of ?M] f(1) M by simp
  have uk: "uint ?kh = \<lceil>?K\<rceil>"
    using uint_of_float64_Ceil(2) [of ?K] f(2) K by simp
  obtain kh2 where o: "optimalHashFunctions n ?mb = Inr kh2"
    and u2: "uint kh2 = max \<lceil>real (unat ?mb) / real (unat n) * ln 2\<rceil> 1"
    using optimalHashFunctions_Inr [OF n, of ?mb] by blast
  have "real_of_int (int (unat ?mb)) = real_of_int \<lceil>?M\<rceil>"
    using um by simp
  then have rm: "real (unat ?mb) = of_int \<lceil>?M\<rceil>"
    by (simp del: of_nat_unat)
  have n0: "0 < real (unat n)"
    using n by linarith
  have "?M \<le> real (unat ?mb)"
    unfolding rm by (rule le_of_int_ceiling)
  then have "?M / real (unat n) \<le> real (unat ?mb) / real (unat n)"
    using n0 by (rule divide_right_mono [OF _ less_imp_le])
  then have "?K \<le> real (unat ?mb) / real (unat n) * ln 2"
    using ln2_pos by (intro mult_right_mono) linarith+
  then have "\<lceil>?K\<rceil> \<le> \<lceil>real (unat ?mb) / real (unat n) * ln 2\<rceil>"
    by (rule ceiling_mono)
  then have "uint ?kh \<le> uint kh2"
    using uk u2 by linarith
  then have "?kh \<le> kh2"
    by (simp add: word_le_def)
  then have "\<exists>mbits kh kh2. bloomParams n p = Inr (mbits, kh)
            \<and> optimalBitArraySize n p = Inr mbits
            \<and> optimalHashFunctions n mbits = Inr kh2 \<and> kh \<le> kh2"
    using bloomParams_Inr [OF n assms(2,3) M] optimalBitArraySize_Inr [OF n assms(2,3) M] o
    by blast
  then show ?thesis
    using Add_v2_eq [OF assms(5)] Contains_v2_eq [OF assms(5)]
      EstimatedFalsePositiveRate_v2_eq [OF assms(5)]
    by simp
qed

theorem variants_agree_witness:
  "(1 :: uint64) \<le> 1 \<and> (0 :: real) < 17 / 32 \<and> (17 / 32 :: real) < 1
   \<and> \<lceil>- real (unat (1 :: uint64)) * ln (17 / 32) / (ln 2) ^ 2\<rceil> < 2 ^ 64
   \<and> unat (k demo_v2) = length (seeds demo_v2)
   \<and> (\<exists>mbits kh kh2. bloomParams 1 (17 / 32) = Inr (mbits, kh)
         \<and> optimalBitArraySize 1 (17 / 32) = Inr mbits
         \<and> optimalHashFunctions 1 mbits = Inr kh2 \<and> kh \<le> kh2)
   \<and> Add_v2 sample_hash 0 5 demo_v2 = Add sample_hash 0 5 demo_v2
   \<and> Contains_v2 sample_hash 0 5 demo_v2 = Contains sample_hash 0 5 demo_v2
   \<and> EstimatedFalsePositiveRate_v2 demo_v2 = EstimatedFalsePositiveRate demo_v2"
proof -
  have M: "\<lceil>- real (unat (1 :: uint64)) * ln (17 / 32) / (ln 2) ^ 2\<rceil> = 2"
    using example_M by (intro ceiling_unique) simp_all
  then have 4: "\<lceil>- real (unat (1 :: uint64)) * ln (17 / 32) / (ln 2) ^ 2\<rceil> < 2 ^ 64"
    by simp
  have 1: "(1 :: uint64) \<le> 1" and 2: "(0 :: real) < 17 / 32" and 3: "(17 / 32 :: real) < 1"
    by simp_all
  have 5: "unat (k demo_v2) = length (seeds demo_v2)"
    by (simp add: demo_v2_def)
  show ?thesis
    using 1 2 3 4 5 variants_agree [OF 1 2 3 4 5, of sample_hash 0 5] by blast
qed

text \<open>
  Claim C10 as stated, the same \<open>(m, k)\<close> for every valid input, fails: for one
  expected item and \<open>p = 17/32\<close> the first variant returns \<open>(2, 1)\<close> and the second
  \<open>(2, 2)\<close>.
\<close>

theorem variants_differ_in_k:
  "bloomParams 1 (17 / 32) = Inr (2, 1)
   \<and> optimalBitArraySize 1 (17 / 32) = Inr 2
   \<and> optimalHashFunctions 1 2 = Inr 2"
  using bloomParams_example optimalBitArraySize_example optimalHashFunctions_example
  by simp

section \<open>The estimated false-positive rate\<close>

text \<open>
  Claim C2. \<open>EstimatedFalsePositiveRate\<close> returns 0 when \<open>entries\<close> is 0, and
  \<open>(1 - exp (- k * n / m)) ^ k\<close> otherwise, with \<open>n\<close> the current \<open>entries\<close>,
  \<open>m\<close> the size and \<open>k\<close> the number of seeds (first variant) or the field \<open>k\<close>
  (second variant). The quotient needs \<open>m \<noteq> 0\<close>, which the invariant of a filter
  gives.
\<close>

theorem estimated_rate_formula:
  "(entries bf = 0 \<longrightarrow> EstimatedFalsePositiveRate bf = 0)
   \<and> (entries bf \<noteq> 0 \<and> m bf \<noteq> 0 \<longrightarrow>
        EstimatedFalsePositiveRate bf
          = (1 - exp (- (real (length (seeds bf)) * real (unat (entries bf))
                          / real (unat (m bf))))) ^ length (seeds bf))
   \<and> (entries bf2 = 0 \<longrightarrow> EstimatedFalsePositiveRate_v2 bf2 = 0)
   \<and> (entries bf2 \<noteq> 0 \<and> m bf2 \<noteq> 0 \<longrightarrow>
        EstimatedFalsePositiveRate_v2 bf2
          = (1 - exp (- (real (unat (k bf2)) * real (unat (entries bf2))
                          / real (unat (m bf2))))) ^ unat (k bf2))"
  by (simp add: EstimatedFalsePositiveRate_def EstimatedFalsePositiveRate_v2_def Let_def)

theorem estimated_rate_formula_witness:
  "entries demo = 0 \<and> EstimatedFalsePositiveRate demo = 0
   \<and> entries demo_v2 = 0 \<and> EstimatedFalsePositiveRate_v2 demo_v2 = 0
   \<and> entries (demo\<lparr>entries := 3\<rparr>) \<noteq> 0 \<and> m (demo\<lparr>entries := 3\<rparr>) \<noteq> 0
   \<and> EstimatedFalsePositiveRate (demo\<lparr>entries := 3\<rparr>) = (1 - exp (- (2 * 3 / 64))) ^ 2
   \<and> entries (demo_v2\<lparr>entries := 3\<rparr>) \<noteq> 0 \<and> m (demo_v2\<lparr>entries := 3\<rparr>) \<noteq> 0
   \<and> EstimatedFalsePositiveRate_v2 (demo_v2\<lparr>entries := 3\<rparr>) = (1 - exp (- (2 * 3 / 64))) ^ 2"
proof -
  have 1: "entries demo = 0" and 2: "entries demo_v2 = 0"
    and 3: "entries (demo\<lparr>entries := 3\<rparr>) \<noteq> 0 \<and> m (demo\<lparr>entries := 3\<rparr>) \<noteq> 0"
    and 4: "entries (demo_v2\<lparr>entries := 3\<rparr>) \<noteq> 0 \<and> m (demo_v2\<lparr>entries := 3\<rparr>) \<noteq> 0"
    by (simp_all add: demo_def demo_v2_def)
  have 5: "length (seeds (demo\<lparr>entries := 3\<rparr>)) = 2"
    "real (unat (entries (demo\<lparr>entries := 3\<rparr>))) = 3"
    "real (unat (m (demo\<lparr>entries := 3\<rparr>))) = 64"
    "unat (k (demo_v2\<lparr>entries := 3\<rparr>)) = 2"
    "real (unat (entries (demo_v2\<lparr>entries := 3\<rparr>))) = 3"
    "real (unat (m (demo_v2\<lparr>entries := 3\<rparr>))) = 64"
    by (simp_all add: demo_def demo_v2_def del: of_nat_unat)
  have a: "EstimatedFalsePositiveRate demo = 0 \<and> EstimatedFalsePositiveRate_v2 demo_v2 = 0"
    using estimated_rate_formula [of demo demo_v2] 1 2 by blast
  have b: "EstimatedFalsePositiveRate (demo\<lparr>entries := 3\<rparr>)
             = (1 - exp (- (real (length (seeds (demo\<lparr>entries := 3\<rparr>)))
                  * real (unat (entries (demo\<lparr>entries := 3\<rparr>)))
                  / real (unat (m (demo\<lparr>entries := 3\<rparr>)))))) ^ length (seeds (demo\<lparr>entries := 3\<rparr>))
           \<and> EstimatedFalsePositiveRate_v2 (demo_v2\<lparr>entries := 3\<rparr>)
             = (1 - exp (- (real (unat (k (demo_v2\<lparr>entries := 3\<rparr>)))
                  * real (unat (entries (demo_v2\<lparr>entries := 3\<rparr>)))
                  / real (unat (m (demo_v2\<lparr>entries := 3\<rparr>)))))) ^ unat (k (demo_v2\<lparr>entries := 3\<rparr>))"
    using estimated_rate_formula [of "demo\<lparr>entries := 3\<rparr>" "demo_v2\<lparr>entries := 3\<rparr>"] 3 4
    by blast
  have c: "EstimatedFalsePositiveRate (demo\<lparr>entries := 3\<rparr>) = (1 - exp (- (2 * 3 / 64))) ^ 2
           \<and> EstimatedFalsePositiveRate_v2 (demo_v2\<lparr>entries := 3\<rparr>) = (1 - exp (- (2 * 3 / 64))) ^ 2"
    using b unfolding 5 by simp
  show ?thesis
    using 1 2 3 4 a c by blast
qed

section \<open>The estimated rate grows with the entries\<close>

text \<open>
  Claim C5, as the code has it. An \<open>Add\<close> that does not wrap the counter
  (\<open>entries\<close> is not the largest \<open>uint\<close>) leaves the estimated rate at least what
  it was, the step from no entry to one entry included; both variants.
\<close>

theorem estimated_rate_monotone:
  assumes "Filter_inv bf" and "entries bf \<noteq> - 1"
    and "Filter_inv bf2" and "unat (k bf2) = length (seeds bf2)" and "entries bf2 \<noteq> - 1"
  shows "(\<exists>bf'. Add H r x bf = Inr bf' \<and> entries bf' = entries bf + 1
            \<and> EstimatedFalsePositiveRate bf \<le> EstimatedFalsePositiveRate bf')
       \<and> (\<exists>bf'. Add_v2 H r x bf2 = Inr bf' \<and> entries bf' = entries bf2 + 1
            \<and> EstimatedFalsePositiveRate_v2 bf2 \<le> EstimatedFalsePositiveRate_v2 bf')"
proof -
  obtain bf' where a: "Add H r x bf2 = Inr bf'" and e: "entries bf' = entries bf2 + 1"
    and le: "EstimatedFalsePositiveRate bf2 \<le> EstimatedFalsePositiveRate bf'"
    using Add_rate [OF assms(3,5), of H r x] by blast
  have "k bf' = k bf2" and "seeds bf' = seeds bf2"
    by (subst Add_frame [OF a], simp)+
  then have "unat (k bf') = length (seeds bf')"
    using assms(4) by simp
  then have "EstimatedFalsePositiveRate_v2 bf2 \<le> EstimatedFalsePositiveRate_v2 bf'"
    using le by (simp add: EstimatedFalsePositiveRate_v2_eq assms(4))
  then have "\<exists>bf'. Add_v2 H r x bf2 = Inr bf' \<and> entries bf' = entries bf2 + 1
            \<and> EstimatedFalsePositiveRate_v2 bf2 \<le> EstimatedFalsePositiveRate_v2 bf'"
    using a e by (auto simp add: Add_v2_eq [OF assms(4)])
  then show ?thesis
    using Add_rate [OF assms(1,2), of H r x] by blast
qed

theorem estimated_rate_monotone_witness:
  "Filter_inv demo \<and> entries demo \<noteq> - 1
   \<and> Filter_inv demo_v2 \<and> unat (k demo_v2) = length (seeds demo_v2) \<and> entries demo_v2 \<noteq> - 1
   \<and> (\<exists>bf'. Add sample_hash 0 5 demo = Inr bf' \<and> entries bf' = 1
         \<and> EstimatedFalsePositiveRate demo \<le> EstimatedFalsePositiveRate bf')
   \<and> (\<exists>bf'. Add_v2 sample_hash 0 5 demo_v2 = Inr bf' \<and> entries bf' = 1
         \<and> EstimatedFalsePositiveRate_v2 demo_v2 \<le> EstimatedFalsePositiveRate_v2 bf')"
proof -
  have 1: "Filter_inv demo" and 2: "entries demo \<noteq> - 1"
    and 3: "Filter_inv demo_v2" and 4: "unat (k demo_v2) = length (seeds demo_v2)"
    and 5: "entries demo_v2 \<noteq> - 1"
    by (simp_all add: Filter_inv_def demo_def demo_v2_def)
  have "entries demo + 1 = 1" and "entries demo_v2 + 1 = 1"
    by (simp_all add: demo_def demo_v2_def)
  then show ?thesis
    using 1 2 3 4 5 estimated_rate_monotone [OF 1 2 3 4 5, of sample_hash 0 5] by simp
qed

text \<open>
  Claim C5 as stated, for every filter, fails where the counter wraps: from
  \<open>entries = 2 ^ 64 - 1\<close> (here on the example filter with all its bits set) an
  \<open>Add\<close> takes \<open>entries\<close> to 0, and the estimate from a positive value to 0.
\<close>

theorem estimated_rate_drops_at_wrap:
  "Add sample_hash 0 5 (demo\<lparr>bits := [- 1], entries := - 1\<rparr>)
     = Inr (demo\<lparr>bits := [- 1], hasher := \<lparr>hseed = 2, hbuf = [5]\<rparr>, entries := 0\<rparr>)
   \<and> EstimatedFalsePositiveRate
         (demo\<lparr>bits := [- 1], hasher := \<lparr>hseed = 2, hbuf = [5]\<rparr>, entries := 0\<rparr>) = 0
   \<and> 0 < EstimatedFalsePositiveRate (demo\<lparr>bits := [- 1], entries := - 1\<rparr>)"
proof -
  have "Add sample_hash 0 5 (demo\<lparr>bits := [- 1], entries := - 1\<rparr>)
     = Inr (demo\<lparr>bits := [- 1], hasher := \<lparr>hseed = 2, hbuf = [5]\<rparr>, entries := 0\<rparr>)"
    by (simp add: Add_def demo_def hashItem_def Reset_def initSeed_def SetSeed_def
        WriteComparable_def Sum64_def setBit_def sample_hash_def)
  moreover have "EstimatedFalsePositiveRate
         (demo\<lparr>bits := [- 1], hasher := \<lparr>hseed = 2, hbuf = [5]\<rparr>, entries := 0\<rparr>) = 0"
    by (simp add: EstimatedFalsePositiveRate_def)
  moreover have "0 < EstimatedFalsePositiveRate (demo\<lparr>bits := [- 1], entries := - 1\<rparr>)"
    by (rule EstimatedFalsePositiveRate_pos) (simp_all add: demo_def)
  ultimately show ?thesis
    by simp
qed

end
